theory Spec2Isabelle
  imports Main "HOL-Library.AList" "HOL-Library.Multiset" "HOL-Library.Word"
begin

unbundle bit_operations_syntax

section \<open>Paths\<close>

text \<open>
  Paths, like every Python \<open>str\<close> here, are sequences of code points below 256
  (a \<open>char\<close> is its code point). The path functions of \<open>os.path\<close> are those of
  \<open>posixpath\<close>: \<open>os.sep\<close> is the slash.
\<close>

type_synonym path = string

definition os_sep :: char where
  "os_sep = CHR ''/''"

text \<open>\<open>lambda p: p.count(os.sep)\<close>, the sort key of \<open>delete_duplicates\<close>.\<close>

definition depth :: "path \<Rightarrow> nat" where
  "depth p = count_list p os_sep"

text \<open>\<open>s.split(c)\<close> for a one-character separator: never the empty list.\<close>

fun split_on :: "char \<Rightarrow> string \<Rightarrow> string list" where
  "split_on c [] = [[]]"
| "split_on c (x # xs) =
     (if x = c then [] # split_on c xs
      else (case split_on c xs of [] \<Rightarrow> [[x]] | w # ws \<Rightarrow> (x # w) # ws))"

text \<open>\<open>c.join(ws)\<close>.\<close>

fun join_with :: "char \<Rightarrow> string list \<Rightarrow> string" where
  "join_with c [] = []"
| "join_with c [w] = w"
| "join_with c (w # ws) = w @ c # join_with c ws"

definition startswith :: "string \<Rightarrow> string \<Rightarrow> bool" where
  "startswith s pre = (take (length pre) s = pre)"

definition endswith :: "string \<Rightarrow> string \<Rightarrow> bool" where
  "endswith s suf = (length suf \<le> length s \<and> drop (length s - length suf) s = suf)"

text \<open>\<open>posixpath.join(a, b)\<close> with two arguments.\<close>

definition path_join :: "path \<Rightarrow> path \<Rightarrow> path" where
  "path_join a b =
     (if startswith b ''/'' then b
      else if a = [] \<or> endswith a ''/'' then a @ b
      else a @ ''/'' @ b)"

text \<open>The loop of \<open>posixpath.normpath\<close> over the components, \<open>new_comps\<close> threaded.\<close>

fun norm_comps :: "bool \<Rightarrow> string list \<Rightarrow> string list \<Rightarrow> string list" where
  "norm_comps initial_slashes new_comps [] = new_comps"
| "norm_comps initial_slashes new_comps (part # parts) =
     (if part = [] \<or> part = ''.'' then norm_comps initial_slashes new_comps parts
      else if part \<noteq> ''..'' \<or> (\<not> initial_slashes \<and> new_comps = [])
                \<or> (new_comps \<noteq> [] \<and> last new_comps = ''..'')
        then norm_comps initial_slashes (new_comps @ [part]) parts
      else if new_comps \<noteq> [] then norm_comps initial_slashes (butlast new_comps) parts
      else norm_comps initial_slashes new_comps parts)"

definition normpath :: "path \<Rightarrow> path" where
  "normpath p =
     (if p = [] then ''.''
      else
        let initial_slashes =
              (if startswith p ''/'' then
                 (if startswith p ''//'' \<and> \<not> startswith p ''///'' then 2 else 1)
               else (0::nat));
            comps = norm_comps (0 < initial_slashes) [] (split_on CHR ''/'' p);
            q = replicate initial_slashes CHR ''/'' @ join_with CHR ''/'' comps
        in if q = [] then ''.'' else q)"

text \<open>\<open>posixpath.abspath\<close>; the working directory is the first argument.\<close>

definition abspath :: "path \<Rightarrow> path \<Rightarrow> path" where
  "abspath cwd p = normpath (if startswith p ''/'' then p else path_join cwd p)"

section \<open>Numbers and strings as text\<close>

definition digit_char :: "nat \<Rightarrow> char" where
  "digit_char n = ''0123456789abcdef'' ! (n mod 16)"

text \<open>A natural number in decimal, as an f-string formats it.\<close>

function show_nat :: "nat \<Rightarrow> string" where
  "show_nat n =
     (if n < 10 then [digit_char n] else show_nat (n div 10) @ [digit_char (n mod 10)])"
  by pat_completeness auto
termination
  by (relation "measure id") auto

declare show_nat.simps [simp del]

text \<open>
  \<open>repr\<close> of a \<open>str\<close>: the quote is the apostrophe unless the string holds an
  apostrophe and no double quote; the backslash and the quote are escaped, tab, line
  feed and carriage return have their letters, and what is not printable is
  written \<open>\xNN\<close>.
\<close>

definition printable :: "char \<Rightarrow> bool" where
  "printable c =
     ((32 \<le> (of_char c :: nat) \<and> (of_char c :: nat) \<le> 126)
      \<or> (161 \<le> (of_char c :: nat) \<and> (of_char c :: nat) \<noteq> 173))"

definition escape_char :: "char \<Rightarrow> char \<Rightarrow> string" where
  "escape_char q c =
     (if c = q \<or> c = CHR 0x5C then [CHR 0x5C, c]
      else if c = CHR 0x09 then [CHR 0x5C, CHR ''t'']
      else if c = CHR 0x0A then [CHR 0x5C, CHR ''n'']
      else if c = CHR 0x0D then [CHR 0x5C, CHR ''r'']
      else if printable c then [c]
      else [CHR 0x5C, CHR ''x'', digit_char (of_char c div 16), digit_char (of_char c)])"

definition py_repr :: "string \<Rightarrow> string" where
  "py_repr s =
     (let q = (if CHR 0x27 \<in> set s \<and> CHR 0x22 \<notin> set s then CHR 0x22 else CHR 0x27)
      in q # concat (map (escape_char q) s) @ [q])"

section \<open>Files and the directory tree\<close>

type_synonym bytes = "8 word list"

text \<open>
  What the program can observe of a file: its bytes, whether \<open>open(path, 'rb')\<close>
  succeeds, the \<open>read\<close> call (counted from 0) at which the device fails, if any, and
  whether \<open>os.remove\<close> is permitted.
\<close>

record regular_file =
  content :: bytes
  open_ok :: bool
  read_fault :: "nat option"
  removable :: bool

text \<open>A directory lists its entries in the order \<open>scandir\<close> returns them.\<close>

datatype node = File regular_file | Dir "(string \<times> node) list"

fun is_dir :: "node \<Rightarrow> bool" where
  "is_dir (Dir es) = True"
| "is_dir (File f) = False"

record filesystem =
  root :: "(string \<times> node) list"
  cwd :: path

text \<open>The node that a list of names leads to, starting from a node.\<close>

fun node_at :: "node \<Rightarrow> string list \<Rightarrow> node option" where
  "node_at nd [] = Some nd"
| "node_at (File f) (n # ns) = None"
| "node_at (Dir es) (n # ns) = (case map_of es n of None \<Rightarrow> None | Some c \<Rightarrow> node_at c ns)"

text \<open>
  Path resolution as the kernel does it, one component at a time from the names
  \<open>cur\<close> reached so far (there are no symbolic links): an empty component and
  \<open>.\<close> stay, \<open>..\<close> goes to the parent (the root is its own parent), a name
  must be listed. Stepping on from anything but a directory is \<open>ENOTDIR\<close> (20), a
  missing name is \<open>ENOENT\<close> (2).
\<close>

fun canon :: "node \<Rightarrow> string list \<Rightarrow> string list \<Rightarrow> nat + string list" where
  "canon rt cur [] = Inr cur"
| "canon rt cur (c # cs) =
     (case node_at rt cur of
        Some (Dir es) \<Rightarrow>
          if c = [] \<or> c = ''.'' then canon rt cur cs
          else if c = ''..'' then canon rt (butlast cur) cs
          else (case map_of es c of
                  None \<Rightarrow> Inl 2
                | Some n \<Rightarrow> canon rt (cur @ [c]) cs)
      | _ \<Rightarrow> Inl 20)"

text \<open>
  The names from the root that a path string resolves to: an absolute path from the
  root, a relative one from the working directory; the empty path names nothing.
\<close>

definition resolve :: "filesystem \<Rightarrow> path \<Rightarrow> nat + string list" where
  "resolve fs p =
     (if p = [] then Inl 2
      else if startswith p ''/'' then canon (Dir (root fs)) [] (split_on CHR ''/'' p)
      else (case canon (Dir (root fs)) [] (split_on CHR ''/'' (cwd fs)) of
              Inl e \<Rightarrow> Inl e
            | Inr here \<Rightarrow> canon (Dir (root fs)) here (split_on CHR ''/'' p)))"

definition lookup :: "filesystem \<Rightarrow> path \<Rightarrow> nat + node" where
  "lookup fs p =
     (case resolve fs p of
        Inl e \<Rightarrow> Inl e
      | Inr names \<Rightarrow>
          (case node_at (Dir (root fs)) names of None \<Rightarrow> Inl 2 | Some nd \<Rightarrow> Inr nd))"

definition lookup_file :: "filesystem \<Rightarrow> path \<Rightarrow> regular_file option" where
  "lookup_file fs p = (case lookup fs p of Inr (File f) \<Rightarrow> Some f | _ \<Rightarrow> None)"

definition lookup_dir :: "filesystem \<Rightarrow> path \<Rightarrow> (string \<times> node) list option" where
  "lookup_dir fs p = (case lookup fs p of Inr (Dir es) \<Rightarrow> Some es | _ \<Rightarrow> None)"

text \<open>
  Taking the last of the names out of the directory the others lead to (a directory
  holds a name once).
\<close>

fun unlink_at :: "string list \<Rightarrow> node \<Rightarrow> node" where
  "unlink_at [] nd = nd"
| "unlink_at (n # ns) (File f) = File f"
| "unlink_at [n] (Dir es) = Dir (filter (\<lambda>(m, c). m \<noteq> n) es)"
| "unlink_at (n # ns) (Dir es) =
     Dir (map (\<lambda>(m, c). if m = n then (m, unlink_at ns c) else (m, c)) es)"

section \<open>Exceptions, console and program state\<close>

text \<open>
  The exceptions the programs can meet. An \<open>OSError\<close> carries the text \<open>str(e)\<close>
  gives: \<open>[Errno 13] Permission denied: '/ro/a'\<close>, with the \<open>repr\<close> of the path
  the call was given, or without a path when a \<open>read\<close> fails.
\<close>

datatype py_exception = OSError string | EOFError | KeyboardInterrupt

fun exc_str :: "py_exception \<Rightarrow> string" where
  "exc_str (OSError msg) = msg"
| "exc_str EOFError = ''EOF when reading a line''"
| "exc_str KeyboardInterrupt = []"

definition strerror :: "nat \<Rightarrow> string" where
  "strerror e =
     (if e = 2 then ''No such file or directory''
      else if e = 5 then ''Input/output error''
      else if e = 13 then ''Permission denied''
      else if e = 20 then ''Not a directory''
      else if e = 21 then ''Is a directory''
      else ''Unknown error '' @ show_nat e)"

definition os_error :: "nat \<Rightarrow> path \<Rightarrow> py_exception" where
  "os_error e p =
     OSError (''[Errno '' @ show_nat e @ ''] '' @ strerror e @ '': '' @ py_repr p)"

definition io_error :: py_exception where
  "io_error = OSError (''[Errno '' @ show_nat 5 @ ''] '' @ strerror 5)"

text \<open>What arrives on standard input: a line, or the operator's interrupt.\<close>

datatype keyboard = Line string | CtrlC

text \<open>
  The observable actions, in order: a \<open>print\<close>, an \<open>input\<close> with its prompt and what
  it read (\<open>None\<close> at end of input), an \<open>os.remove\<close> with its success, and the
  line the \<open>time_it\<close> decorator prints (the elapsed time itself is not modelled).
\<close>

datatype event =
    Print string
  | Input string "keyboard option"
  | Remove path bool
  | Timing string

text \<open>
  The module-level dictionaries \<open>file_to_hash\<close> and \<open>hash_to_files\<close> keep insertion
  order. The values of \<open>hash_to_files\<close> are list objects: the dictionary holds their
  addresses, and \<open>store\<close> is where they live, so that the dictionary
  \<open>collisions\<close> built from it shares them.
\<close>

record world =
  disk :: filesystem
  stdin :: "keyboard list"
  trace :: "event list"
  file_to_hash :: "(path \<times> string) list"
  hash_to_files :: "(string \<times> nat) list"
  store :: "nat \<Rightarrow> path list"
  next_ref :: nat

definition print :: "string \<Rightarrow> world \<Rightarrow> world" where
  "print s w = w\<lparr>trace := trace w @ [Print s]\<rparr>"

text \<open>\<open>input(prompt)\<close>: the prompt is written, then a line is read.\<close>

definition input :: "string \<Rightarrow> world \<Rightarrow> (py_exception + string) \<times> world" where
  "input prompt w =
     (case stdin w of
        [] \<Rightarrow> (Inl EOFError, w\<lparr>trace := trace w @ [Input prompt None]\<rparr>)
      | CtrlC # rest \<Rightarrow>
          (Inl KeyboardInterrupt,
           w\<lparr>stdin := rest, trace := trace w @ [Input prompt (Some CtrlC)]\<rparr>)
      | Line l # rest \<Rightarrow>
          (Inr l, w\<lparr>stdin := rest, trace := trace w @ [Input prompt (Some (Line l))]\<rparr>))"

text \<open>
  \<open>os.remove(path)\<close>: the path must resolve to a file, not to a directory, and
  removing it must be permitted.
\<close>

definition os_remove :: "filesystem \<Rightarrow> path \<Rightarrow> py_exception + filesystem" where
  "os_remove fs p =
     (case resolve fs p of
        Inl e \<Rightarrow> Inl (os_error e p)
      | Inr names \<Rightarrow>
          (case node_at (Dir (root fs)) names of
             None \<Rightarrow> Inl (os_error 2 p)
           | Some (Dir es) \<Rightarrow> Inl (os_error 21 p)
           | Some (File f) \<Rightarrow>
               if removable f
               then Inr (fs\<lparr>root := (case unlink_at names (Dir (root fs)) of
                                       Dir es \<Rightarrow> es | File g \<Rightarrow> root fs)\<rparr>)
               else Inl (os_error 13 p)))"

section \<open>Enumerating the files\<close>

text \<open>
  \<open>os.walk(start)\<close>, top-down, with no \<open>onerror\<close> handler: a \<open>start\<close> that cannot be
  listed (missing, or not a directory) yields nothing and raises nothing.
\<close>

fun walk_node :: "path \<Rightarrow> node \<Rightarrow> (path \<times> string list \<times> string list) list" where
  "walk_node start (File f) = []"
| "walk_node start (Dir es) =
     (start, map fst (filter (\<lambda>(n, c). is_dir c) es),
           map fst (filter (\<lambda>(n, c). \<not> is_dir c) es))
     # concat (map (\<lambda>(n, c). walk_node (path_join start n) c)
                 (filter (\<lambda>(n, c). is_dir c) es))"

definition os_walk :: "filesystem \<Rightarrow> path \<Rightarrow> (path \<times> string list \<times> string list) list" where
  "os_walk fs start =
     (case lookup_dir fs start of
        None \<Rightarrow> []
      | Some es \<Rightarrow> walk_node start (Dir es))"

definition get_file_paths :: "filesystem \<Rightarrow> path \<Rightarrow> path list" where
  "get_file_paths fs dir =
     concat (map (\<lambda>(dirpath, dirnames, filenames).
                    map (\<lambda>filename. abspath (cwd fs) (path_join dirpath filename)) filenames)
                 (os_walk fs dir))"

section \<open>Fingerprints\<close>

text \<open>
  MD5 itself is a parameter: any function from byte strings to 128-bit digests. A
  \<open>hashlib\<close> object is modelled by the bytes fed to it so far; \<open>hexdigest\<close>
  writes the digest of those bytes as 32 lower-case hexadecimal digits.
\<close>

type_synonym digest_fn = "bytes \<Rightarrow> 128 word"

definition hexdigest :: "128 word \<Rightarrow> string" where
  "hexdigest d = map (\<lambda>i. digit_char (unat (drop_bit (4 * i) d))) (rev [0..<32])"

text \<open>
  \<open>for byte_block in iter(lambda: f.read(chunk_size), b''): f_hash.update(byte_block)\<close>,
  where \<open>i\<close> counts the \<open>read\<close> calls and \<open>rest\<close> is what is left of the file.
\<close>

function read_blocks ::
  "nat \<Rightarrow> nat option \<Rightarrow> nat \<Rightarrow> bytes \<Rightarrow> bytes \<Rightarrow> py_exception + bytes" where
  "read_blocks chunk_size fault i rest f_hash =
     (if fault = Some i then Inl io_error
      else if take chunk_size rest = [] then Inr f_hash
      else read_blocks chunk_size fault (Suc i) (drop chunk_size rest)
             (f_hash @ take chunk_size rest))"
  by pat_completeness auto
termination
  by (relation "measure (\<lambda>(chunk_size, fault, i, rest, f_hash). length rest)") auto

declare read_blocks.simps [simp del]

definition hash_file :: "digest_fn \<Rightarrow> filesystem \<Rightarrow> path \<Rightarrow> nat \<Rightarrow> py_exception + string" where
  "hash_file md5 fs file_path chunk_size =
     (case lookup fs file_path of
        Inl e \<Rightarrow> Inl (os_error e file_path)
      | Inr (Dir es) \<Rightarrow> Inl (os_error 21 file_path)
      | Inr (File f) \<Rightarrow>
          if \<not> open_ok f then Inl (os_error 13 file_path)
          else (case read_blocks chunk_size (read_fault f) 0 (content f) [] of
                  Inl e \<Rightarrow> Inl e
                | Inr f_hash \<Rightarrow> Inr (hexdigest (md5 f_hash))))"

text \<open>
  \<open>process_file\<close> of \<open>cleanup_v2.py\<close>: the same body inside
  \<open>try ... except (OSError, PermissionError)\<close>.
\<close>

definition process_file ::
  "digest_fn \<Rightarrow> filesystem \<Rightarrow> path \<Rightarrow> nat \<Rightarrow> py_exception + (path \<times> string option)" where
  "process_file md5 fs file_path chunk_size =
     (case hash_file md5 fs file_path chunk_size of
        Inr h \<Rightarrow> Inr (file_path, Some h)
      | Inl (OSError msg) \<Rightarrow> Inr (file_path, None)
      | Inl e \<Rightarrow> Inl e)"

section \<open>The fingerprint index\<close>

text \<open>\<open>hash_to_files[file_hash].append(path)\<close> on a \<open>defaultdict(list)\<close>.\<close>

definition append_path :: "string \<Rightarrow> path \<Rightarrow> world \<Rightarrow> world" where
  "append_path file_hash p w =
     (case map_of (hash_to_files w) file_hash of
        Some r \<Rightarrow> w\<lparr>store := (store w)(r := store w r @ [p])\<rparr>
      | None \<Rightarrow>
          w\<lparr>hash_to_files := hash_to_files w @ [(file_hash, next_ref w)],
            store := (store w)(next_ref w := [p]),
            next_ref := Suc (next_ref w)\<rparr>)"

text \<open>The two assignments in the body of the hashing loop.\<close>

definition record_hash :: "path \<Rightarrow> string \<Rightarrow> world \<Rightarrow> world" where
  "record_hash p file_hash w =
     append_path file_hash p (w\<lparr>file_to_hash := AList.update p file_hash (file_to_hash w)\<rparr>)"

text \<open>The hashing loop of \<open>clean_up.py\<close>: an exception of \<open>hash_file\<close> leaves it.\<close>

fun hash_paths :: "digest_fn \<Rightarrow> path list \<Rightarrow> world \<Rightarrow> py_exception option \<times> world" where
  "hash_paths md5 [] w = (None, w)"
| "hash_paths md5 (p # ps) w =
     (case hash_file md5 (disk w) p 8192 of
        Inl e \<Rightarrow> (Some e, w)
      | Inr file_hash \<Rightarrow> hash_paths md5 ps (record_hash p file_hash w))"

text \<open>
  The loop of \<open>cleanup_v2.py\<close> over \<open>executor.map(process_file, file_paths)\<close>, which
  hands the results back in the order of \<open>file_paths\<close>; a result that is an
  exception is raised when the loop reaches it. \<open>if file_hash:\<close> is false for
  \<open>None\<close> and for the empty string.
\<close>

fun collect_results ::
  "(py_exception + (path \<times> string option)) list \<Rightarrow> world \<Rightarrow> py_exception option \<times> world" where
  "collect_results [] w = (None, w)"
| "collect_results (Inl e # rs) w = (Some e, w)"
| "collect_results (Inr (p, file_hash) # rs) w =
     collect_results rs
       (case file_hash of
          None \<Rightarrow> w
        | Some h \<Rightarrow> if h \<noteq> [] then record_hash p h w else w)"

definition hash_paths_parallel ::
  "digest_fn \<Rightarrow> path list \<Rightarrow> world \<Rightarrow> py_exception option \<times> world" where
  "hash_paths_parallel md5 file_paths w =
     collect_results (map (\<lambda>p. process_file md5 (disk w) p 8192) file_paths) w"

text \<open>
  \<open>{hash: paths for hash, paths in hash_to_files.items() if len(paths) > 1}\<close>: a new
  dictionary holding the same list objects.
\<close>

definition collisions_of :: "world \<Rightarrow> (string \<times> nat) list" where
  "collisions_of w = filter (\<lambda>(h, paths). 1 < length (store w paths)) (hash_to_files w)"

section \<open>Reporting\<close>

text \<open>\<open>for i, path in enumerate(paths): print(f"{i+1} - {path}")\<close>.\<close>

fun print_paths :: "nat \<Rightarrow> path list \<Rightarrow> world \<Rightarrow> world" where
  "print_paths i [] w = w"
| "print_paths i (p # ps) w =
     print_paths (Suc i) ps (print (show_nat (i + 1) @ '' - '' @ p) w)"

fun print_groups :: "(string \<times> nat) list \<Rightarrow> world \<Rightarrow> world" where
  "print_groups [] w = w"
| "print_groups ((h, paths) # cs) w =
     print_groups cs
       (print_paths 0 (store w paths)
          (print (''\<newline>The following files share the same hash ('' @ h
                    @ ''), and have the same binary data.'') w))"

definition display_collisions :: "(string \<times> nat) list \<Rightarrow> world \<Rightarrow> world" where
  "display_collisions collisions w =
     (if collisions \<noteq> [] then print_groups collisions w
      else print ''No hash collisions found.'' w)"

section \<open>Deleting\<close>

text \<open>
  \<open>for path in paths[1:]\<close> with its \<open>try ... except Exception\<close>: every path is
  tried, whatever happened to the ones before.
\<close>

fun remove_each :: "path list \<Rightarrow> world \<Rightarrow> world" where
  "remove_each [] w = w"
| "remove_each (p # ps) w =
     remove_each ps
       (case os_remove (disk w) p of
          Inr fs' \<Rightarrow>
            w\<lparr>disk := fs', trace := trace w @ [Remove p True, Print (''Deleted: '' @ p)]\<rparr>
        | Inl e \<Rightarrow>
            w\<lparr>trace := trace w @ [Remove p False,
                                   Print (''Error deleting '' @ p @ '': '' @ exc_str e)]\<rparr>)"

text \<open>
  The body of the outer loop of \<open>delete_duplicates\<close> for one group: \<open>paths.sort\<close>
  sorts the list object in place, and the sort of Python is stable.
\<close>

definition delete_group :: "nat \<Rightarrow> world \<Rightarrow> world" where
  "delete_group paths w =
     (if 1 < length (store w paths) then
        let w' = w\<lparr>store := (store w)(paths := sort_key depth (store w paths))\<rparr>
        in remove_each (tl (store w' paths)) w'
      else w)"

fun delete_duplicates :: "(string \<times> nat) list \<Rightarrow> world \<Rightarrow> world" where
  "delete_duplicates [] w = w"
| "delete_duplicates ((h, paths) # cs) w = delete_duplicates cs (delete_group paths w)"

section \<open>The prompts\<close>

text \<open>
  \<open>str.strip()\<close> and \<open>str.lower()\<close> on code points below 256: the white space
  there is 9 to 13, 28 to 32, 133 and 160; the capitals are \<open>A\<close> to \<open>Z\<close> and 192
  to 222 without the multiplication sign, each 32 below its small letter.
\<close>

definition is_space :: "char \<Rightarrow> bool" where
  "is_space c = (of_char c \<in> set [9, 10, 11, 12, 13, 28, 29, 30, 31, 32, 133, 160 :: nat])"

definition strip :: "string \<Rightarrow> string" where
  "strip s = rev (dropWhile is_space (rev (dropWhile is_space s)))"

definition lower :: "string \<Rightarrow> string" where
  "lower s = map (\<lambda>c. if (65 \<le> (of_char c :: nat) \<and> (of_char c :: nat) \<le> 90)
                           \<or> (192 \<le> (of_char c :: nat) \<and> (of_char c :: nat) \<le> 222
                               \<and> (of_char c :: nat) \<noteq> 215)
                        then char_of (of_char c + 32 :: nat) else c) s"

definition proceed_prompt :: string where
  "proceed_prompt = ''Proceed to Delete? Hit Enter to Continue: ''"

definition proceed_prompt_v2 :: string where
  "proceed_prompt_v2 = ''Proceed to Delete? Hit Enter to Continue (Ctrl+C to abort): ''"

definition show_prompt :: string where
  "show_prompt = ''Do you want to see all the files (absolute paths) which share the same binary data? (yes/no)? ''"

definition confirm_prompt :: string where
  "confirm_prompt = ''Do you know what you are doing (yes/no)? ''"

definition retry_hint :: string where
  "retry_hint = ''Please enter 'yes'/'y' or 'no'/'n'.''"

text \<open>
  The \<open>while True\<close> loop that both programs write out twice, once for each of the two
  yes/no questions; only the prompt differs. It ends when a line is accepted or
  \<open>input\<close> raises.
\<close>

function ask_yes_no :: "string \<Rightarrow> world \<Rightarrow> (py_exception + bool) \<times> world" where
  "ask_yes_no prompt w =
     (case input prompt w of
        (Inl e, w') \<Rightarrow> (Inl e, w')
      | (Inr l, w') \<Rightarrow>
          if lower (strip l) \<in> set [''yes'', ''y'', ''no'', ''n'']
          then (Inr (lower (strip l) \<in> set [''yes'', ''y'']), w')
          else ask_yes_no prompt (print retry_hint w'))"
  by pat_completeness auto
termination
  by (relation "measure (\<lambda>(prompt, w). length (stdin w))")
     (auto simp: input_def print_def split: list.splits keyboard.splits)

declare ask_yes_no.simps [simp del]

section \<open>The two programs\<close>

text \<open>
  The warning text, a triple-quoted literal indented by twelve blanks; the two
  programs differ in one sentence of it.
\<close>

definition warning_lines :: "string \<Rightarrow> string" where
  "warning_lines sentence =
     ''\<newline>            WARNING: Deleting duplicate files can be dangerous!\<newline>''
   @ ''\<newline>            - Essential files might be duplicated intentionally for accessibility.''
   @ ''\<newline>            - Programs may rely on these files being in specific directories.\<newline>''
   @ ''\<newline>            - This tool will delete all duplicate instances of a file. Duplicates are defined as having the same''
   @ ''\<newline>              binary data. Only one single instance will be kept. '' @ sentence
   @ ''\<newline>              from root (/)\<newline>''
   @ ''\<newline>            Please consider these risks before proceeding.''
   @ ''\<newline>            ''"

definition warning_message :: string where
  "warning_message = warning_lines ''This is will the file with the shortest path''"

definition warning_message_v2 :: string where
  "warning_message_v2 = warning_lines ''This will be the file with the shortest path''"

text \<open>
  What both programs do once the first prompt has returned (\<open>if collisions: ... else:
  ...\<close>), the same statements in both files.
\<close>

definition confirm_and_delete ::
  "string \<Rightarrow> bool \<Rightarrow> (string \<times> nat) list \<Rightarrow> world \<Rightarrow> py_exception option \<times> world" where
  "confirm_and_delete warning show_collisions collisions w =
     (if collisions \<noteq> [] then
        (case (if \<not> show_collisions then
                 (case ask_yes_no show_prompt (print warning w) of
                    (Inl e, w1) \<Rightarrow> (Some e, w1)
                  | (Inr show, w1) \<Rightarrow>
                      (None, if show then display_collisions collisions w1 else w1))
               else (None, print warning w)) of
           (Some e, w2) \<Rightarrow> (Some e, w2)
         | (None, w2) \<Rightarrow>
             (case ask_yes_no confirm_prompt w2 of
                (Inl e, w3) \<Rightarrow> (Some e, w3)
              | (Inr confirm_delete, w3) \<Rightarrow>
                  (None, if confirm_delete then delete_duplicates collisions w3
                         else print ''Aborted deletion.'' w3)))
      else (None, print ''Nothing to delete. No duplicate files found'' w))"

text \<open>
  \<open>clean_up\<close> of \<open>clean_up.py\<close>. The result is the exception that left the function,
  if any, and the state it left behind.
\<close>

definition clean_up ::
  "digest_fn \<Rightarrow> path \<Rightarrow> bool \<Rightarrow> bool \<Rightarrow> world \<Rightarrow> py_exception option \<times> world" where
  "clean_up md5 dir show_collisions delete w =
     (case hash_paths md5 (get_file_paths (disk w) dir) w of
        (Some e, w1) \<Rightarrow> (Some e, w1)
      | (None, w1) \<Rightarrow>
          let collisions = collisions_of w1;
              w2 = (if show_collisions then display_collisions collisions w1
                    else print (''Duplicates were found for '' @ show_nat (length collisions)
                                 @ '' individual files\<newline>'') w1)
          in if delete then
               (case input proceed_prompt w2 of
                  (Inl e, w3) \<Rightarrow> (Some e, w3)
                | (Inr l, w3) \<Rightarrow>
                    confirm_and_delete warning_message show_collisions collisions w3)
             else (None, w2))"

text \<open>
  \<open>clean_up\<close> of \<open>cleanup_v2.py\<close>, without its decorator. The worker processes only
  read the disk, so the pool is the list of their results.
\<close>

definition clean_up_v2_body ::
  "digest_fn \<Rightarrow> path \<Rightarrow> bool \<Rightarrow> bool \<Rightarrow> world \<Rightarrow> py_exception option \<times> world" where
  "clean_up_v2_body md5 directory show_collisions delete w =
     (let file_paths = get_file_paths (disk w) directory;
          w0 = print (''Found '' @ show_nat (length file_paths)
                       @ '' files. Hashing in parallel...'')
                 (print ''Gathering file paths...'' w)
      in case hash_paths_parallel md5 file_paths w0 of
           (Some e, w1) \<Rightarrow> (Some e, w1)
         | (None, w1) \<Rightarrow>
             let collisions = collisions_of w1;
                 w2 = (if show_collisions then display_collisions collisions w1
                       else print (''Duplicates were found for '' @ show_nat (length collisions)
                                    @ '' individual files\<newline>'') w1)
             in if delete then
                  (case input proceed_prompt_v2 w2 of
                     (Inl KeyboardInterrupt, w3) \<Rightarrow>
                       (None, print ''\<newline>Operation cancelled.'' w3)
                   | (Inl e, w3) \<Rightarrow> (Some e, w3)
                   | (Inr l, w3) \<Rightarrow>
                       confirm_and_delete warning_message_v2 show_collisions collisions w3)
                else (None, w2))"

text \<open>The decorator \<open>time_it\<close>: a line after a normal return, nothing after an exception.\<close>

definition clean_up_v2 ::
  "digest_fn \<Rightarrow> path \<Rightarrow> bool \<Rightarrow> bool \<Rightarrow> world \<Rightarrow> py_exception option \<times> world" where
  "clean_up_v2 md5 directory show_collisions delete w =
     (case clean_up_v2_body md5 directory show_collisions delete w of
        (Some e, w') \<Rightarrow> (Some e, w')
      | (None, w') \<Rightarrow> (None, w'\<lparr>trace := trace w' @ [Timing ''clean_up'']\<rparr>))"

text \<open>
  A run of either program: the module is loaded, which creates the two empty
  dictionaries, and \<open>clean_up\<close> is called once with the parsed arguments.
\<close>

definition fresh :: "filesystem \<Rightarrow> keyboard list \<Rightarrow> world" where
  "fresh fs keys =
     \<lparr>disk = fs, stdin = keys, trace = [], file_to_hash = [], hash_to_files = [],
      store = (\<lambda>r. []), next_ref = 0\<rparr>"

definition main :: "digest_fn \<Rightarrow> filesystem \<Rightarrow> keyboard list \<Rightarrow> path \<Rightarrow> bool \<Rightarrow> bool
    \<Rightarrow> py_exception option \<times> world" where
  "main md5 fs keys directory show_duplicates delete =
     clean_up md5 directory show_duplicates delete (fresh fs keys)"

definition main_v2 :: "digest_fn \<Rightarrow> filesystem \<Rightarrow> keyboard list \<Rightarrow> path \<Rightarrow> bool \<Rightarrow> bool
    \<Rightarrow> py_exception option \<times> world" where
  "main_v2 md5 fs keys directory show_duplicates delete =
     clean_up_v2 md5 directory show_duplicates delete (fresh fs keys)"

section \<open>Reading a trace\<close>

text \<open>The paths \<open>os.remove\<close> was called on, in order.\<close>

fun removed :: "event \<Rightarrow> path list" where
  "removed (Remove p ok) = [p]"
| "removed e = []"

definition removals :: "event list \<Rightarrow> path list" where
  "removals es = concat (map removed es)"

text \<open>
  A path is readable when it names a file that opens and whose reads never fail.
\<close>

definition readable :: "filesystem \<Rightarrow> path \<Rightarrow> bool" where
  "readable fs p =
     (case lookup_file fs p of None \<Rightarrow> False | Some f \<Rightarrow> open_ok f \<and> read_fault f = None)"

text \<open>
  How a line typed at a yes/no question is read: after \<open>strip().lower()\<close> it must be
  one of the four tokens.
\<close>

definition recognised :: "string \<Rightarrow> bool" where
  "recognised l = (lower (strip l) \<in> set [''yes'', ''y'', ''no'', ''n''])"

definition affirmative :: "string \<Rightarrow> bool" where
  "affirmative l = (lower (strip l) \<in> set [''yes'', ''y''])"

definition negative :: "string \<Rightarrow> bool" where
  "negative l = (lower (strip l) \<in> set [''no'', ''n''])"

text \<open>What the loop leaves in the trace for the lines it turned down.\<close>

fun retries :: "string \<Rightarrow> string list \<Rightarrow> event list" where
  "retries prompt [] = []"
| "retries prompt (l # ls) = Input prompt (Some (Line l)) # Print retry_hint # retries prompt ls"

text \<open>The lines given in answer to one prompt, and the prompts issued, in order.\<close>

fun answer_to :: "string \<Rightarrow> event \<Rightarrow> string list" where
  "answer_to prompt (Input q (Some (Line l))) = (if q = prompt then [l] else [])"
| "answer_to prompt e = []"

definition answers :: "string \<Rightarrow> event list \<Rightarrow> string list" where
  "answers prompt es = concat (map (answer_to prompt) es)"

fun prompt_of :: "event \<Rightarrow> string list" where
  "prompt_of (Input q k) = [q]"
| "prompt_of e = []"

definition prompts :: "event list \<Rightarrow> string list" where
  "prompts es = concat (map prompt_of es)"

text \<open>
  The re-prompt rule on a trace, for the prompts selected by \<open>yn\<close>: a line that is
  not one of the four tokens is followed by the same prompt again.
\<close>

fun next_prompt :: "event list \<Rightarrow> string option" where
  "next_prompt [] = None"
| "next_prompt (Input q k # es) = Some q"
| "next_prompt (e # es) = next_prompt es"

fun reprompts :: "(string \<Rightarrow> bool) \<Rightarrow> event list \<Rightarrow> bool" where
  "reprompts yn [] = True"
| "reprompts yn (Input q (Some (Line l)) # es) =
     ((yn q \<and> \<not> recognised l \<longrightarrow> next_prompt es = Some q) \<and> reprompts yn es)"
| "reprompts yn (e # es) = reprompts yn es"

text \<open>The first \<open>input\<close> of a trace: its prompt, what was typed, and what came after.\<close>

fun first_input :: "event list \<Rightarrow> (string \<times> keyboard option \<times> event list) option" where
  "first_input [] = None"
| "first_input (Input q k # es) = Some (q, k, es)"
| "first_input (e # es) = first_input es"

text \<open>A piece of trace that can be put in front of any rule-abiding trace.\<close>

definition safe :: "(string \<Rightarrow> bool) \<Rightarrow> event list \<Rightarrow> bool" where
  "safe yn news = (\<forall>tail. reprompts yn tail \<longrightarrow> reprompts yn (news @ tail))"

text \<open>A piece of trace without any \<open>input\<close>.\<close>

definition silent :: "event list \<Rightarrow> bool" where
  "silent es = (\<forall>e\<in>set es. prompt_of e = [])"

text \<open>The shape of everything that can follow the first prompt.\<close>

definition starts :: "event \<Rightarrow> event list \<Rightarrow> bool" where
  "starts e es = (case es of [] \<Rightarrow> False | x # _ \<Rightarrow> x = e)"

definition next_step :: "event list \<Rightarrow> bool" where
  "next_step es = (starts (Print warning_message) es \<or> starts (Print warning_message_v2) es
     \<or> starts (Print ''Nothing to delete. No duplicate files found'') es)"

definition after_proceed ::
  "string \<Rightarrow> (string \<times> nat) list \<Rightarrow> world \<Rightarrow> py_exception option \<Rightarrow> world \<Rightarrow> bool" where
  "after_proceed p cs w2 r w' =
     (\<exists>news rest.
        (\<forall>yn. \<not> yn p \<longrightarrow> safe yn news) \<and> removals news = []
      \<and> (\<forall>m. r \<noteq> Some (OSError m))
      \<and> (\<exists>k. starts (Input p k) news \<and> (\<forall>l. k = Some (Line l) \<longrightarrow> next_step (tl news)))
      \<and> (\<exists>more. prompts news = p # more \<and> set more \<subseteq> {show_prompt, confirm_prompt}
                  \<and> (cs = [] \<longrightarrow> more = []))
      \<and> ((\<exists>l. r = None \<and> cs \<noteq> [] \<and> affirmative l
               \<and> filter recognised (answers confirm_prompt news) = [l]
               \<and> w' = delete_duplicates cs (w2\<lparr>stdin := rest, trace := trace w2 @ news\<rparr>))
          \<or> (w' = w2\<lparr>stdin := rest, trace := trace w2 @ news\<rparr>
              \<and> (\<forall>l\<in>set (answers confirm_prompt news).
                     recognised l \<longrightarrow> negative l \<and> r = None))))"

text \<open>What either program reports when it has found no group.\<close>

definition zero_report :: "bool \<Rightarrow> string" where
  "zero_report show_collisions =
     (if show_collisions then ''No hash collisions found.''
      else ''Duplicates were found for 0 individual files\<newline>'')"

text \<open>\<open>os.path.isdir\<close>.\<close>

definition isdir :: "filesystem \<Rightarrow> path \<Rightarrow> bool" where
  "isdir fs p = (lookup_dir fs p \<noteq> None)"

text \<open>
  The paths recorded under a fingerprint, and the shape every index built by the
  programs has: each key once, each list object under one key, every address
  allocated.
\<close>

definition group_of :: "world \<Rightarrow> string \<Rightarrow> path list" where
  "group_of w h = (case map_of (hash_to_files w) h of None \<Rightarrow> [] | Some g \<Rightarrow> store w g)"

definition wf_index :: "world \<Rightarrow> bool" where
  "wf_index w =
     (distinct (map fst (hash_to_files w)) \<and> distinct (map snd (hash_to_files w))
      \<and> list_all (\<lambda>x. snd x < next_ref w) (hash_to_files w))"

section \<open>Example inputs\<close>

text \<open>
  A stand-in digest for the examples (the length of the input), an ordinary file, and
  a small tree: \<open>/a/b/x\<close> and \<open>/c/x\<close> hold the same byte, \<open>/y\<close> differs.
\<close>

definition length_digest :: digest_fn where
  "length_digest bs = word_of_nat (length bs)"

definition plain_file :: "bytes \<Rightarrow> regular_file" where
  "plain_file bs = \<lparr>content = bs, open_ok = True, read_fault = None, removable = True\<rparr>"

definition two_copies :: filesystem where
  "two_copies =
     \<lparr>root = [(''a'', Dir [(''b'', Dir [(''x'', File (plain_file [1]))])]),
              (''c'', Dir [(''x'', File (plain_file [1]))]),
              (''y'', File (plain_file [1, 2]))],
      cwd = ''/''\<rparr>"

text \<open>The state \<open>clean_up.py\<close> reaches on that tree once its hashing loop is done.\<close>

definition hashed :: world where
  "hashed = snd (hash_paths length_digest (get_file_paths two_copies ''/'') (fresh two_copies []))"

text \<open>A directory whose first file cannot be opened, followed by two equal files.\<close>

definition locked_first :: filesystem where
  "locked_first =
     \<lparr>root = [(''locked'', File ((plain_file [1])\<lparr>open_ok := False\<rparr>)),
              (''p'', File (plain_file [7, 7])),
              (''q'', File (plain_file [7, 7]))],
      cwd = ''/''\<rparr>"

text \<open>
  An operator who hesitates and then declines, and a file system with nothing in it.
\<close>

definition undecided_keys :: "keyboard list" where
  "undecided_keys = [Line ''maybe'', Line ''what'', Line ''n'', Line ''no'']"

definition empty_root :: filesystem where
  "empty_root = \<lparr>root = [], cwd = ''/''\<rparr>"

text \<open>
  An operator who confirms everything, and the tree of \<open>two_copies\<close> without
  \<open>/a/b/x\<close>.
\<close>

definition eager_keys :: "keyboard list" where
  "eager_keys = [Line [], Line ''n'', Line ''yes'']"

definition one_copy :: filesystem where
  "one_copy =
     \<lparr>root = [(''a'', Dir [(''b'', Dir [])]),
              (''c'', Dir [(''x'', File (plain_file [1]))]),
              (''y'', File (plain_file [1, 2]))],
      cwd = ''/''\<rparr>"

section \<open>The retention rule\<close>

lemma removals_append: "removals (xs @ ys) = removals xs @ removals ys"
  by (simp add: removals_def)

lemma first_minimum:
  "xs \<noteq> [] \<Longrightarrow> \<exists>ys k zs. xs = ys @ k # zs \<and> (\<forall>y\<in>set ys. f k < f y) \<and> (\<forall>z\<in>set zs. (f k :: nat) \<le> f z)"
proof (induction xs)
  case Nil
  then show ?case by simp
next
  case (Cons x xs)
  show ?case
  proof (cases "xs = []")
    case True
    then have "x # xs = [] @ x # []" by simp
    then show ?thesis by fastforce
  next
    case False
    with Cons.IH obtain ys k zs where
      eq: "xs = ys @ k # zs" and lt: "\<forall>y\<in>set ys. f k < f y" and le: "\<forall>z\<in>set zs. f k \<le> f z"
      by blast
    show ?thesis
    proof (cases "f x \<le> f k")
      case True
      have "x # xs = [] @ x # (ys @ k # zs)" using eq by simp
      moreover have "\<forall>z\<in>set (ys @ k # zs). f x \<le> f z" using True lt le by fastforce
      ultimately show ?thesis by (metis empty_iff list.set(1))
    next
      case False
      have "x # xs = (x # ys) @ k # zs" using eq by simp
      moreover have "\<forall>y\<in>set (x # ys). f k < f y" using False lt by auto
      ultimately show ?thesis using le by blast
    qed
  qed
qed

lemma sort_key_first_minimum:
  "(\<forall>y\<in>set ys. f k < f y) \<Longrightarrow> (\<forall>z\<in>set zs. (f k :: nat) \<le> f z)
   \<Longrightarrow> sort_key f (ys @ k # zs) = k # sort_key f (ys @ zs)"
proof (induction ys)
  case Nil
  then show ?case by (simp add: insort_is_Cons)
next
  case (Cons y ys)
  then show ?case by simp
qed

lemma remove_each_frame:
  "store (remove_each ps w) = store w \<and> hash_to_files (remove_each ps w) = hash_to_files w
   \<and> file_to_hash (remove_each ps w) = file_to_hash w \<and> stdin (remove_each ps w) = stdin w
   \<and> next_ref (remove_each ps w) = next_ref w"
  by (induction ps arbitrary: w) (auto split: sum.splits)

lemma remove_each_removals:
  "removals (trace (remove_each ps w)) = removals (trace w) @ ps"
  by (induction ps arbitrary: w) (auto simp: removals_append removals_def split: sum.splits)

text \<open>
  C1. In every duplicate group the retention step keeps the path with the fewest
  separators; among several of that depth it keeps the one that stood first in the
  group (every path before the keeper is strictly deeper, every path after it at
  least as deep); the list object then holds the keeper followed by the others in
  stable depth order, and \<open>os.remove\<close> is called on exactly those others.
\<close>

theorem keeper_is_first_shallowest:
  assumes "1 < length (store w paths)"
  shows "\<exists>before keeper after.
           store w paths = before @ keeper # after
         \<and> (\<forall>p\<in>set before. depth keeper < depth p)
         \<and> (\<forall>p\<in>set after. depth keeper \<le> depth p)
         \<and> store (delete_group paths w) paths = keeper # sort_key depth (before @ after)
         \<and> removals (trace (delete_group paths w))
             = removals (trace w) @ sort_key depth (before @ after)"
proof -
  from assms have "store w paths \<noteq> []" by auto
  from first_minimum [OF this, of depth] obtain before keeper after where
    eq: "store w paths = before @ keeper # after"
    and lt: "\<forall>p\<in>set before. depth keeper < depth p"
    and le: "\<forall>p\<in>set after. depth keeper \<le> depth p"
    by blast
  have sorted: "sort_key depth (store w paths) = keeper # sort_key depth (before @ after)"
    unfolding eq using lt le by (rule sort_key_first_minimum)
  have "store (delete_group paths w) paths = keeper # sort_key depth (before @ after)"
    using assms sorted by (simp add: delete_group_def Let_def remove_each_frame)
  moreover have "removals (trace (delete_group paths w))
      = removals (trace w) @ sort_key depth (before @ after)"
    using assms sorted by (simp add: delete_group_def Let_def remove_each_removals)
  ultimately show ?thesis using eq lt le by blast
qed

theorem keeper_is_first_shallowest_witness:
  "1 < length (store ((fresh two_copies [])\<lparr>store := (\<lambda>r. [''/a/b/x'', ''/c/x''])\<rparr>) 0)
   \<and> (\<exists>before keeper after.
           store ((fresh two_copies [])\<lparr>store := (\<lambda>r. [''/a/b/x'', ''/c/x''])\<rparr>) 0 = before @ keeper # after
         \<and> (\<forall>p\<in>set before. depth keeper < depth p)
         \<and> (\<forall>p\<in>set after. depth keeper \<le> depth p)
         \<and> store (delete_group 0 ((fresh two_copies [])\<lparr>store := (\<lambda>r. [''/a/b/x'', ''/c/x''])\<rparr>)) 0 = keeper # sort_key depth (before @ after)
         \<and> removals (trace (delete_group 0 ((fresh two_copies [])\<lparr>store := (\<lambda>r. [''/a/b/x'', ''/c/x''])\<rparr>)))
             = removals (trace ((fresh two_copies [])\<lparr>store := (\<lambda>r. [''/a/b/x'', ''/c/x''])\<rparr>)) @ sort_key depth (before @ after))"
proof -
  have h: "1 < length (store ((fresh two_copies [])\<lparr>store := (\<lambda>r. [''/a/b/x'', ''/c/x''])\<rparr>) 0)"
    by simp
  show ?thesis using h keeper_is_first_shallowest [OF h] by blast
qed

section \<open>What the retention step changes\<close>

lemma sort_key_twice: "sort_key f (sort_key f xs) = sort_key f xs"
  by (simp add: sort_key_id_if_sorted)

lemma delete_group_frame:
  "hash_to_files (delete_group g w) = hash_to_files w
   \<and> file_to_hash (delete_group g w) = file_to_hash w
   \<and> stdin (delete_group g w) = stdin w
   \<and> next_ref (delete_group g w) = next_ref w"
  by (simp add: delete_group_def Let_def remove_each_frame)

lemma delete_group_store:
  "store (delete_group g w) r =
     (if r = g \<and> 1 < length (store w g) then sort_key depth (store w g) else store w r)"
  by (simp add: delete_group_def Let_def remove_each_frame)

lemma delete_duplicates_frame:
  "hash_to_files (delete_duplicates cs w) = hash_to_files w
   \<and> file_to_hash (delete_duplicates cs w) = file_to_hash w
   \<and> stdin (delete_duplicates cs w) = stdin w
   \<and> next_ref (delete_duplicates cs w) = next_ref w"
  by (induction cs arbitrary: w) (auto simp: delete_group_frame)

lemma delete_duplicates_store:
  "store (delete_duplicates cs w) r =
     (if r \<in> snd ` set cs \<and> 1 < length (store w r) then sort_key depth (store w r)
      else store w r)"
proof (induction cs arbitrary: w)
  case Nil
  then show ?case by simp
next
  case (Cons c cs)
  obtain h g where c: "c = (h, g)" by (cases c)
  show ?case
    unfolding c by (auto simp: Cons.IH delete_group_store sort_key_twice)
qed

subsection \<open>The example tree, hashed\<close>

lemma hashed_index:
  "hash_to_files hashed = [(''00000000000000000000000000000002'', 0), (''00000000000000000000000000000001'', Suc 0)]
   \<and> store hashed 0 = [''/y''] \<and> store hashed (Suc 0) = [''/a/b/x'', ''/c/x'']"
  unfolding hashed_def by code_simp

lemma hashed_collisions: "collisions_of hashed = [(''00000000000000000000000000000001'', Suc 0)]"
  by (simp add: collisions_of_def hashed_index)

lemma depth_examples: "depth ''/a/b/x'' = 3 \<and> depth ''/c/x'' = 2 \<and> depth ''/y'' = 1"
  by (simp add: depth_def os_sep_def)

text \<open>
  C8, as stated: deciding what to delete leaves the group's path collection as it
  was. It does not: on the example tree the group \<open>[/a/b/x, /c/x]\<close> is reordered
  in place by \<open>paths.sort\<close>.
\<close>

theorem retention_mutates_group:
  "store (delete_duplicates (collisions_of hashed) hashed) (Suc 0) \<noteq> store hashed (Suc 0)"
  by (simp add: hashed_collisions hashed_index depth_examples delete_group_store)


text \<open>
  C8, amended. \<open>delete_duplicates\<close> leaves both dictionaries, the input and the
  allocation of list objects alone; a list object is changed only if it is one of
  the groups and has more than one path, and then it is replaced by its stable sort
  by depth, so every list keeps its paths. (The disk and the trace change by the
  deletions.)
\<close>

theorem delete_duplicates_only_reorders:
  "hash_to_files (delete_duplicates collisions w) = hash_to_files w
   \<and> file_to_hash (delete_duplicates collisions w) = file_to_hash w
   \<and> stdin (delete_duplicates collisions w) = stdin w
   \<and> next_ref (delete_duplicates collisions w) = next_ref w
   \<and> store (delete_duplicates collisions w) r =
        (if r \<in> snd ` set collisions \<and> 1 < length (store w r)
         then sort_key depth (store w r) else store w r)
   \<and> mset (store (delete_duplicates collisions w) r) = mset (store w r)"
  by (simp add: delete_duplicates_frame delete_duplicates_store)

theorem delete_duplicates_only_reorders_witness:
  "store (delete_duplicates (collisions_of hashed) hashed) (Suc 0) = [''/c/x'', ''/a/b/x'']
   \<and> mset (store (delete_duplicates (collisions_of hashed) hashed) (Suc 0)) = mset (store hashed (Suc 0))"
  using delete_duplicates_only_reorders [of "collisions_of hashed" hashed "Suc 0"]
  by (simp add: hashed_collisions hashed_index depth_examples)


section \<open>Hashing: sequential and parallel\<close>

lemma read_blocks_all:
  "fault = None \<Longrightarrow> 0 < chunk_size \<Longrightarrow>
   read_blocks chunk_size fault i rest f_hash = Inr (f_hash @ rest)"
proof (induction chunk_size fault i rest f_hash rule: read_blocks.induct)
  case (1 chunk_size fault i rest f_hash)
  show ?case
  proof (cases "take chunk_size rest = []")
    case True
    with "1.prems" have "rest = []" by (cases rest) auto
    with "1.prems" show ?thesis by (subst read_blocks.simps) simp
  next
    case False
    with "1.IH" "1.prems" have
      "read_blocks chunk_size fault (Suc i) (drop chunk_size rest) (f_hash @ take chunk_size rest)
         = Inr ((f_hash @ take chunk_size rest) @ drop chunk_size rest)"
      by simp
    with False "1.prems" show ?thesis
      by (subst read_blocks.simps) simp
  qed
qed

lemma hash_file_readable:
  "readable fs p \<Longrightarrow> 0 < chunk_size \<Longrightarrow>
   \<exists>f. lookup_file fs p = Some f \<and> hash_file md5 fs p chunk_size = Inr (hexdigest (md5 (content f)))"
  by (auto simp: readable_def hash_file_def lookup_file_def read_blocks_all
      split: option.splits sum.splits node.splits)

lemma length_hexdigest: "length (hexdigest d) = 32"
  by (simp add: hexdigest_def)

lemma hexdigest_truthy: "hexdigest d \<noteq> []"
  using length_hexdigest [of d] by auto

lemma record_hash_frame:
  "disk (record_hash p h w) = disk w \<and> stdin (record_hash p h w) = stdin w
   \<and> trace (record_hash p h w) = trace w"
  by (simp add: record_hash_def append_path_def split: option.splits)

lemma collect_results_readable:
  "\<forall>p\<in>set ps. readable fs p \<Longrightarrow> disk w = fs \<Longrightarrow>
   collect_results (map (\<lambda>p. process_file md5 fs p 8192) ps) w = hash_paths md5 ps w
   \<and> fst (hash_paths md5 ps w) = None"
proof (induction ps arbitrary: w)
  case Nil
  then show ?case by simp
next
  case (Cons p ps)
  from Cons.prems have "readable fs p" by simp
  then have "\<exists>f. lookup_file fs p = Some f
      \<and> hash_file md5 fs p 8192 = Inr (hexdigest (md5 (content f)))"
    by (rule hash_file_readable) simp
  then obtain f :: regular_file where
    h: "hash_file md5 fs p 8192 = Inr (hexdigest (md5 (content f)))" by blast
  have d: "disk (record_hash p (hexdigest (md5 (content f))) w) = fs"
    using Cons.prems by (simp add: record_hash_frame)
  from Cons.prems have "\<forall>p\<in>set ps. readable fs p" by simp
  from Cons.IH [OF this d] show ?case
    using Cons.prems(2) by (simp add: h process_file_def hexdigest_truthy)
qed

text \<open>
  C7. When every path of the list is readable, the loop over the results of the
  pool in \<open>cleanup_v2.py\<close> and the sequential loop of \<open>clean_up.py\<close>, started in
  the same state, end in the same state without an exception: the same keys in the
  same order, the same list of paths under each key, the same collisions.
\<close>

theorem parallel_index_equals_sequential:
  assumes "\<forall>p\<in>set file_paths. readable (disk w) p"
  shows "hash_paths_parallel md5 file_paths w = hash_paths md5 file_paths w
       \<and> fst (hash_paths md5 file_paths w) = None
       \<and> hash_to_files (snd (hash_paths_parallel md5 file_paths w))
           = hash_to_files (snd (hash_paths md5 file_paths w))
       \<and> store (snd (hash_paths_parallel md5 file_paths w))
           = store (snd (hash_paths md5 file_paths w))
       \<and> collisions_of (snd (hash_paths_parallel md5 file_paths w))
           = collisions_of (snd (hash_paths md5 file_paths w))"
  using collect_results_readable [OF assms refl, of md5]
  by (simp add: hash_paths_parallel_def)

theorem parallel_index_equals_sequential_witness:
  "readable (disk (fresh two_copies [])) ''/y''
   \<and> readable (disk (fresh two_copies [])) ''/a/b/x''
   \<and> readable (disk (fresh two_copies [])) ''/c/x''
   \<and> hash_paths_parallel length_digest [''/y'', ''/a/b/x'', ''/c/x''] (fresh two_copies [])
       = hash_paths length_digest [''/y'', ''/a/b/x'', ''/c/x''] (fresh two_copies [])"
proof -
  have h: "\<forall>p\<in>set [''/y'', ''/a/b/x'', ''/c/x'']. readable (disk (fresh two_copies [])) p"
    by code_simp
  show ?thesis using h parallel_index_equals_sequential [OF h, of length_digest] by simp
qed

text \<open>
  C2. \<open>hash_file\<close> of \<open>clean_up.py\<close> has no handler: with an unreadable file first in
  the directory the exception leaves \<open>clean_up\<close>, nothing has been hashed and nothing
  is reported, while \<open>cleanup_v2.py\<close> on the same input skips the file and finds the
  group of the two others.
\<close>

theorem unreadable_file_aborts_clean_up:
  "fst (main length_digest locked_first [] ''/'' False False) = Some (os_error 13 ''/locked'')
   \<and> hash_to_files (snd (main length_digest locked_first [] ''/'' False False)) = []
   \<and> trace (snd (main length_digest locked_first [] ''/'' False False)) = []
   \<and> collisions_of (snd (main_v2 length_digest locked_first [] ''/'' False False))
     = [(''00000000000000000000000000000002'', 0)]
   \<and> store (snd (main_v2 length_digest locked_first [] ''/'' False False)) 0 = [''/p'', ''/q'']"
  by code_simp

section \<open>The yes/no loop\<close>

lemma answers_append: "answers p (xs @ ys) = answers p xs @ answers p ys"
  by (simp add: answers_def)

lemma prompts_append: "prompts (xs @ ys) = prompts xs @ prompts ys"
  by (simp add: prompts_def)

lemma safe_append: "safe yn xs \<Longrightarrow> safe yn ys \<Longrightarrow> safe yn (xs @ ys)"
  by (simp add: safe_def)

lemma safe_Nil: "safe yn []"
  by (simp add: safe_def)

lemma ask_yes_no_result:
  "ask_yes_no prompt w = (r, w') \<Longrightarrow>
   \<exists>bad fin rest.
      w' = w\<lparr>stdin := rest, trace := trace w @ retries prompt bad @ [Input prompt fin]\<rparr>
    \<and> stdin w = map Line bad @ (case fin of None \<Rightarrow> [] | Some k \<Rightarrow> k # rest)
    \<and> (\<forall>l\<in>set bad. \<not> recognised l)
    \<and> (case fin of
          None \<Rightarrow> r = Inl EOFError \<and> rest = []
        | Some CtrlC \<Rightarrow> r = Inl KeyboardInterrupt
        | Some (Line l) \<Rightarrow> recognised l \<and> r = Inr (affirmative l))"
proof (induction prompt w arbitrary: r w' rule: ask_yes_no.induct)
  case (1 prompt w)
  show ?case
  proof (cases "stdin w")
    case Nil
    with "1.prems" have "r = Inl EOFError" "w' = w\<lparr>trace := trace w @ [Input prompt None]\<rparr>"
      by (auto simp: ask_yes_no.simps [of prompt w] input_def)
    with Nil have
      "w' = w\<lparr>stdin := [], trace := trace w @ retries prompt [] @ [Input prompt None]\<rparr>
       \<and> stdin w = map Line [] @ (case None :: keyboard option of None \<Rightarrow> [] | Some k \<Rightarrow> k # [])
       \<and> (\<forall>l\<in>set []. \<not> recognised l) \<and> r = Inl EOFError"
      by simp
    then show ?thesis
      by (intro exI [of _ "[]"] exI [of _ "None"]) simp
  next
    case (Cons k rest)
    show ?thesis
    proof (cases k)
      case CtrlC
      with Cons "1.prems" have "r = Inl KeyboardInterrupt"
        "w' = w\<lparr>stdin := rest, trace := trace w @ [Input prompt (Some CtrlC)]\<rparr>"
        by (auto simp: ask_yes_no.simps [of prompt w] input_def)
      with Cons CtrlC show ?thesis
        by (intro exI [of _ "[]"] exI [of _ "Some CtrlC"] exI [of _ rest]) simp
    next
      case (Line l)
      let ?w1 = "w\<lparr>stdin := rest, trace := trace w @ [Input prompt (Some (Line l))]\<rparr>"
      have inp: "input prompt w = (Inr l, ?w1)"
        using Cons Line by (simp add: input_def)
      show ?thesis
      proof (cases "recognised l")
        case True
        with inp "1.prems" have "r = Inr (affirmative l)" "w' = ?w1"
          by (auto simp: ask_yes_no.simps [of prompt w] recognised_def affirmative_def)
        with Cons Line True show ?thesis
          by (intro exI [of _ "[]"] exI [of _ "Some (Line l)"] exI [of _ rest]) simp
      next
        case False
        with inp "1.prems" have rec: "ask_yes_no prompt (print retry_hint ?w1) = (r, w')"
          by (auto simp: ask_yes_no.simps [of prompt w] recognised_def)
        from False have nr: "lower (strip l) \<notin> set [''yes'', ''y'', ''no'', ''n'']"
          by (simp add: recognised_def)
        from "1.IH" [OF inp [symmetric] refl nr rec] obtain bad fin rest' where
          w': "w' = (print retry_hint ?w1)\<lparr>stdin := rest',
                  trace := trace (print retry_hint ?w1) @ retries prompt bad @ [Input prompt fin]\<rparr>"
          and st: "stdin (print retry_hint ?w1)
                  = map Line bad @ (case fin of None \<Rightarrow> [] | Some k \<Rightarrow> k # rest')"
          and bad: "\<forall>l\<in>set bad. \<not> recognised l"
          and fin: "(case fin of
                      None \<Rightarrow> r = Inl EOFError \<and> rest' = []
                    | Some CtrlC \<Rightarrow> r = Inl KeyboardInterrupt
                    | Some (Line l) \<Rightarrow> recognised l \<and> r = Inr (affirmative l))"
          by blast
        have "w' = w\<lparr>stdin := rest', trace := trace w @ retries prompt (l # bad) @ [Input prompt fin]\<rparr>"
          using w' by (simp add: print_def)
        moreover have "stdin w = map Line (l # bad) @ (case fin of None \<Rightarrow> [] | Some k \<Rightarrow> k # rest')"
          using st Cons Line by (simp add: print_def)
        moreover have "\<forall>x\<in>set (l # bad). \<not> recognised x"
          using bad False by simp
        ultimately show ?thesis using fin by blast
      qed
    qed
  qed
qed


section \<open>Pieces of trace\<close>

lemma silent_append: "silent (xs @ ys) = (silent xs \<and> silent ys)"
  by (auto simp: silent_def)

lemma silent_answers: "silent es \<Longrightarrow> answers p es = []"
proof (induction es)
  case Nil
  then show ?case by (simp add: answers_def)
next
  case (Cons e es)
  then show ?case by (cases e) (auto simp: answers_def silent_def)
qed

lemma silent_prompts: "silent es \<Longrightarrow> prompts es = []"
  by (induction es) (auto simp: prompts_def silent_def)

lemma silent_reprompts: "silent es \<Longrightarrow> reprompts yn (es @ tail) = reprompts yn tail"
proof (induction es)
  case Nil
  then show ?case by simp
next
  case (Cons e es)
  then show ?case by (cases e) (auto simp: silent_def)
qed

lemma silent_safe: "silent es \<Longrightarrow> safe yn es"
  by (simp add: safe_def silent_reprompts)

lemma silent_Print: "silent (map Print ps)"
  by (simp add: silent_def)

lemma removals_Print: "removals (map Print ps) = []"
  by (induction ps) (auto simp: removals_def)

lemma answers_retries: "answers q (retries p bad) = (if q = p then bad else [])"
  by (induction bad) (auto simp: answers_def)

lemma prompts_retries: "prompts (retries p bad) = replicate (length bad) p"
  by (induction bad) (auto simp: prompts_def)

lemma removals_retries: "removals (retries p bad) = []"
  by (induction bad) (auto simp: removals_def)

lemma next_prompt_retries: "next_prompt (retries p bad @ Input p fin # tail) = Some p"
  by (cases bad) auto

lemma reprompts_loop:
  "\<forall>l\<in>set bad. \<not> recognised l \<Longrightarrow> (\<forall>l. fin = Some (Line l) \<longrightarrow> recognised l) \<Longrightarrow>
   reprompts yn (retries p bad @ Input p fin # tail) = reprompts yn tail"
proof (induction bad)
  case Nil
  show ?case
  proof (cases fin)
    case None
    then show ?thesis by simp
  next
    case (Some k)
    with Nil show ?thesis by (cases k) auto
  qed
next
  case (Cons l bad)
  then show ?case by (simp add: next_prompt_retries)
qed

lemma safe_loop:
  "\<forall>l\<in>set bad. \<not> recognised l \<Longrightarrow> (\<forall>l. fin = Some (Line l) \<longrightarrow> recognised l) \<Longrightarrow>
   safe yn (retries p bad @ [Input p fin])"
  by (simp add: safe_def reprompts_loop)

lemma print_paths_trace: "\<exists>ps. print_paths i xs w = w\<lparr>trace := trace w @ map Print ps\<rparr>"
proof (induction xs arbitrary: i w)
  case Nil
  have "print_paths i [] w = w\<lparr>trace := trace w @ map Print []\<rparr>" by simp
  then show ?case by blast
next
  case (Cons x xs)
  let ?s = "show_nat (i + 1) @ '' - '' @ x"
  from Cons [of "Suc i" "print ?s w"] obtain ps where
    "print_paths (Suc i) xs (print ?s w) = (print ?s w)\<lparr>trace := trace (print ?s w) @ map Print ps\<rparr>"
    by blast
  then have "print_paths i (x # xs) w = w\<lparr>trace := trace w @ map Print (?s # ps)\<rparr>"
    by (simp add: print_def)
  then show ?case by blast
qed

lemma print_groups_trace: "\<exists>ps. print_groups cs w = w\<lparr>trace := trace w @ map Print ps\<rparr>"
proof (induction cs arbitrary: w)
  case Nil
  have "print_groups [] w = w\<lparr>trace := trace w @ map Print []\<rparr>" by simp
  then show ?case by blast
next
  case (Cons c cs)
  obtain h g where c: "c = (h, g)" by (cases c)
  let ?s = "''\<newline>The following files share the same hash ('' @ h
                    @ ''), and have the same binary data.''"
  obtain ps where ps: "print_paths 0 (store w g) (print ?s w)
      = (print ?s w)\<lparr>trace := trace (print ?s w) @ map Print ps\<rparr>"
    using print_paths_trace by blast
  let ?w1 = "print_paths 0 (store w g) (print ?s w)"
  obtain qs where qs: "print_groups cs ?w1 = ?w1\<lparr>trace := trace ?w1 @ map Print qs\<rparr>"
    using Cons by blast
  have "print_groups (c # cs) w = w\<lparr>trace := trace w @ map Print (?s # ps @ qs)\<rparr>"
    unfolding c using qs ps by (simp add: print_def)
  then show ?case by blast
qed

lemma display_collisions_trace:
  "\<exists>ps. display_collisions cs w = w\<lparr>trace := trace w @ map Print ps\<rparr>"
proof (cases "cs = []")
  case True
  have "display_collisions cs w = w\<lparr>trace := trace w @ map Print [''No hash collisions found.'']\<rparr>"
    using True by (simp add: display_collisions_def print_def)
  then show ?thesis by blast
next
  case False
  then show ?thesis using print_groups_trace by (simp add: display_collisions_def)
qed

lemma print_trace: "print s w = w\<lparr>trace := trace w @ map Print [s]\<rparr>"
  by (simp add: print_def)

lemma remove_each_trace:
  "\<exists>news. trace (remove_each ps w) = trace w @ news \<and> silent news"
proof (induction ps arbitrary: w)
  case Nil
  have "trace (remove_each [] w) = trace w @ [] \<and> silent []" by (simp add: silent_def)
  then show ?case by blast
next
  case (Cons p ps)
  let ?w1 = "case os_remove (disk w) p of
          Inr fs' \<Rightarrow>
            w\<lparr>disk := fs', trace := trace w @ [Remove p True, Print (''Deleted: '' @ p)]\<rparr>
        | Inl e \<Rightarrow>
            w\<lparr>trace := trace w @ [Remove p False,
                                   Print (''Error deleting '' @ p @ '': '' @ exc_str e)]\<rparr>"
  obtain one where one: "trace ?w1 = trace w @ one" "silent one"
    by (cases "os_remove (disk w) p") (auto simp: silent_def)
  from Cons [of ?w1] obtain news where "trace (remove_each ps ?w1) = trace ?w1 @ news" "silent news"
    by blast
  with one have "trace (remove_each (p # ps) w) = trace w @ (one @ news) \<and> silent (one @ news)"
    by (simp add: silent_append)
  then show ?case by blast
qed

lemma delete_group_trace:
  "\<exists>news. trace (delete_group g w) = trace w @ news \<and> silent news"
proof (cases "1 < length (store w g)")
  case True
  let ?w1 = "w\<lparr>store := (store w)(g := sort_key depth (store w g))\<rparr>"
  from remove_each_trace [of "tl (store ?w1 g)" ?w1] True show ?thesis
    by (simp add: delete_group_def Let_def)
next
  case False
  then have "trace (delete_group g w) = trace w @ [] \<and> silent []"
    by (simp add: delete_group_def silent_def)
  then show ?thesis by blast
qed

lemma delete_duplicates_trace:
  "\<exists>news. trace (delete_duplicates cs w) = trace w @ news \<and> silent news"
proof (induction cs arbitrary: w)
  case Nil
  have "trace (delete_duplicates [] w) = trace w @ [] \<and> silent []" by (simp add: silent_def)
  then show ?case by blast
next
  case (Cons c cs)
  obtain h g where c: "c = (h, g)" by (cases c)
  obtain one where one: "trace (delete_group g w) = trace w @ one" "silent one"
    using delete_group_trace by blast
  from Cons [of "delete_group g w"] obtain news where
    "trace (delete_duplicates cs (delete_group g w)) = trace (delete_group g w) @ news" "silent news"
    by blast
  with one have "trace (delete_duplicates (c # cs) w) = trace w @ (one @ news) \<and> silent (one @ news)"
    unfolding c by (simp add: silent_append)
  then show ?case by blast
qed

section \<open>The confirmation flow\<close>

lemma recognised_cases: "recognised l = (affirmative l \<or> negative l)"
  by (auto simp: recognised_def affirmative_def negative_def)

lemma affirmative_not_negative: "affirmative l \<Longrightarrow> \<not> negative l"
  by (auto simp: affirmative_def negative_def)

lemma filter_unrecognised: "\<forall>l\<in>set bad. \<not> recognised l \<Longrightarrow> filter recognised bad = []"
  by (induction bad) auto

lemma prompts_distinct:
  "show_prompt \<noteq> confirm_prompt \<and> proceed_prompt \<noteq> confirm_prompt
   \<and> proceed_prompt \<noteq> show_prompt \<and> proceed_prompt_v2 \<noteq> confirm_prompt
   \<and> proceed_prompt_v2 \<noteq> show_prompt"
  by (simp add: show_prompt_def confirm_prompt_def proceed_prompt_def proceed_prompt_v2_def)

lemma answers_Input:
  "answers q [Input p fin] = (case fin of Some (Line l) \<Rightarrow> if p = q then [l] else [] | _ \<Rightarrow> [])"
proof (cases fin)
  case None
  then show ?thesis by (simp add: answers_def)
next
  case (Some k)
  then show ?thesis by (cases k) (simp_all add: answers_def)
qed

lemma ask_yes_no_summary:
  assumes "ask_yes_no p w = (res, w1)"
  shows "\<exists>news rest.
      w1 = w\<lparr>stdin := rest, trace := trace w @ news\<rparr>
    \<and> (\<forall>yn. safe yn news) \<and> removals news = [] \<and> set (prompts news) \<subseteq> {p}
    \<and> (\<forall>q. q \<noteq> p \<longrightarrow> answers q news = [])
    \<and> (case res of
          Inl e \<Rightarrow> (e = EOFError \<or> e = KeyboardInterrupt)
                   \<and> (\<forall>l\<in>set (answers p news). \<not> recognised l)
        | Inr b \<Rightarrow> (\<exists>l. recognised l \<and> b = affirmative l
                        \<and> filter recognised (answers p news) = [l]))"
proof -
  from ask_yes_no_result [OF assms] obtain bad fin rest where
    w1: "w1 = w\<lparr>stdin := rest, trace := trace w @ retries p bad @ [Input p fin]\<rparr>"
    and bad: "\<forall>l\<in>set bad. \<not> recognised l"
    and fin: "(case fin of
          None \<Rightarrow> res = Inl EOFError \<and> rest = []
        | Some CtrlC \<Rightarrow> res = Inl KeyboardInterrupt
        | Some (Line l) \<Rightarrow> recognised l \<and> res = Inr (affirmative l))"
    by blast
  let ?news = "retries p bad @ [Input p fin]"
  have rec: "\<forall>l. fin = Some (Line l) \<longrightarrow> recognised l"
    using fin by auto
  have safe: "\<forall>yn. safe yn ?news"
    using bad rec by (simp add: safe_loop)
  have rem: "removals ?news = []"
    by (simp add: removals_append removals_retries) (simp add: removals_def)
  have pr: "set (prompts ?news) \<subseteq> {p}"
    by (auto simp: prompts_append prompts_retries) (simp add: prompts_def)
  have other: "\<forall>q. q \<noteq> p \<longrightarrow> answers q ?news = []"
  proof (intro allI impI)
    fix q assume "q \<noteq> p"
    then have "answers q [Input p fin] = []"
      by (simp add: answers_Input split: option.splits keyboard.splits)
    with \<open>q \<noteq> p\<close> show "answers q ?news = []"
      by (simp add: answers_append answers_retries)
  qed
  have own: "answers p ?news = bad @ (case fin of Some (Line l) \<Rightarrow> [l] | _ \<Rightarrow> [])"
    by (simp add: answers_append answers_retries answers_Input split: option.splits keyboard.splits)
  have res: "(case res of
          Inl e \<Rightarrow> (e = EOFError \<or> e = KeyboardInterrupt)
                   \<and> (\<forall>l\<in>set (answers p ?news). \<not> recognised l)
        | Inr b \<Rightarrow> (\<exists>l. recognised l \<and> b = affirmative l
                        \<and> filter recognised (answers p ?news) = [l]))"
  proof (cases fin)
    case None
    with fin bad own show ?thesis by simp
  next
    case (Some k)
    show ?thesis
    proof (cases k)
      case (Line l)
      with Some fin bad own show ?thesis by (simp add: filter_unrecognised)
    next
      case CtrlC
      with Some fin bad own show ?thesis by simp
    qed
  qed
  from w1 safe rem pr other res show ?thesis by blast
qed

lemma safe_Print: "safe yn (map Print ps)"
  by (simp add: silent_safe silent_Print)

lemma answers_Print: "answers q (map Print ps) = []"
  by (simp add: silent_answers silent_Print)

lemma prompts_Print: "prompts (map Print ps) = []"
  by (simp add: silent_prompts silent_Print)

lemma Print_single:
  "answers q [Print s] = [] \<and> prompts [Print s] = [] \<and> removals [Print s] = []"
  by (simp add: answers_def prompts_def removals_def)

lemma confirm_stage:
  assumes "(case ask_yes_no confirm_prompt w2 of
              (Inl e, w3) \<Rightarrow> (Some e, w3)
            | (Inr c, w3) \<Rightarrow>
                (None, if c then delete_duplicates cs w3 else print ''Aborted deletion.'' w3))
           = (r, w')"
  shows "\<exists>news rest.
      (\<forall>yn. safe yn news) \<and> removals news = [] \<and> set (prompts news) \<subseteq> {confirm_prompt}
    \<and> (\<forall>m. r \<noteq> Some (OSError m))
    \<and> ((\<exists>l. r = None \<and> affirmative l \<and> filter recognised (answers confirm_prompt news) = [l]
             \<and> w' = delete_duplicates cs (w2\<lparr>stdin := rest, trace := trace w2 @ news\<rparr>))
        \<or> (w' = w2\<lparr>stdin := rest, trace := trace w2 @ news\<rparr>
            \<and> (\<forall>l\<in>set (answers confirm_prompt news). recognised l \<longrightarrow> negative l \<and> r = None)))"
proof -
  obtain res w3 where ask: "ask_yes_no confirm_prompt w2 = (res, w3)"
    by (cases "ask_yes_no confirm_prompt w2")
  from ask_yes_no_summary [OF ask] obtain news rest where
    w3: "w3 = w2\<lparr>stdin := rest, trace := trace w2 @ news\<rparr>"
    and safe: "\<forall>yn. safe yn news" and rem: "removals news = []"
    and pr: "set (prompts news) \<subseteq> {confirm_prompt}"
    and res: "(case res of
          Inl e \<Rightarrow> (e = EOFError \<or> e = KeyboardInterrupt)
                   \<and> (\<forall>l\<in>set (answers confirm_prompt news). \<not> recognised l)
        | Inr b \<Rightarrow> (\<exists>l. recognised l \<and> b = affirmative l
                        \<and> filter recognised (answers confirm_prompt news) = [l]))"
    by blast
  show ?thesis
  proof (cases res)
    case (Inl e)
    with assms ask have "r = Some e" "w' = w3" by auto
    moreover from Inl res have "e = EOFError \<or> e = KeyboardInterrupt"
      "\<forall>l\<in>set (answers confirm_prompt news). \<not> recognised l" by auto
    ultimately show ?thesis using w3 safe rem pr by blast
  next
    case (Inr b)
    with res obtain l where l: "recognised l" "b = affirmative l"
      "filter recognised (answers confirm_prompt news) = [l]" by auto
    show ?thesis
    proof (cases b)
      case True
      with Inr assms ask have "r = None" "w' = delete_duplicates cs w3" by auto
      with True l w3 safe rem pr show ?thesis by blast
    next
      case False
      let ?news = "news @ map Print [''Aborted deletion.'']"
      from False Inr assms ask have r: "r = None" and "w' = print ''Aborted deletion.'' w3" by auto
      then have w': "w' = w2\<lparr>stdin := rest, trace := trace w2 @ ?news\<rparr>"
        using w3 by (simp add: print_def)
      have "negative l" using False l by (simp add: recognised_cases)
      have "\<forall>x\<in>set (answers confirm_prompt news). recognised x \<longrightarrow> x = l"
      proof (intro ballI impI)
        fix x assume "x \<in> set (answers confirm_prompt news)" "recognised x"
        then have "x \<in> set (filter recognised (answers confirm_prompt news))" by simp
        with l(3) show "x = l" by simp
      qed
      with \<open>negative l\<close> r have
        "\<forall>x\<in>set (answers confirm_prompt ?news). recognised x \<longrightarrow> negative x \<and> r = None"
        by (auto simp: answers_append Print_single)
      moreover have "\<forall>yn. safe yn ?news"
        using safe safe_Print safe_append by blast
      moreover have "removals ?news = []"
        using rem by (simp add: removals_append Print_single)
      moreover have "set (prompts ?news) \<subseteq> {confirm_prompt}"
        using pr by (simp add: prompts_append Print_single)
      ultimately show ?thesis using w' r by blast
    qed
  qed
qed

lemma show_stage:
  assumes "(if \<not> show_collisions then
                 (case ask_yes_no show_prompt (print warning w) of
                    (Inl e, w1) \<Rightarrow> (Some e, w1)
                  | (Inr sh, w1) \<Rightarrow>
                      (None, if sh then display_collisions cs w1 else w1))
               else (None, print warning w)) = (r0, w2)"
  shows "\<exists>pre rest.
      w2 = w\<lparr>stdin := rest, trace := trace w @ pre\<rparr>
    \<and> (\<forall>yn. safe yn pre) \<and> removals pre = [] \<and> set (prompts pre) \<subseteq> {show_prompt}
    \<and> answers confirm_prompt pre = [] \<and> (\<forall>m. r0 \<noteq> Some (OSError m))
    \<and> starts (Print warning) pre"
proof (cases show_collisions)
  case True
  with assms have "r0 = None" "w2 = w\<lparr>stdin := stdin w, trace := trace w @ map Print [warning]\<rparr>"
    by (auto simp: print_def)
  moreover have "\<forall>yn. safe yn (map Print [warning])" using safe_Print by blast
  moreover have "removals (map Print [warning]) = []" by (rule removals_Print)
  moreover have "set (prompts (map Print [warning])) \<subseteq> {show_prompt}" by (simp add: Print_single)
  moreover have "answers confirm_prompt (map Print [warning]) = []" by (rule answers_Print)
  moreover have "starts (Print warning) (map Print [warning])" by (simp add: starts_def)
  ultimately show ?thesis by blast
next
  case False
  let ?w0 = "print warning w"
  obtain res w1 where ask: "ask_yes_no show_prompt ?w0 = (res, w1)"
    by (cases "ask_yes_no show_prompt ?w0")
  from ask_yes_no_summary [OF ask] obtain news rest where
    w1: "w1 = ?w0\<lparr>stdin := rest, trace := trace ?w0 @ news\<rparr>"
    and safe: "\<forall>yn. safe yn news" and rem: "removals news = []"
    and pr: "set (prompts news) \<subseteq> {show_prompt}"
    and other: "\<forall>q. q \<noteq> show_prompt \<longrightarrow> answers q news = []"
    and res: "(case res of
          Inl e \<Rightarrow> (e = EOFError \<or> e = KeyboardInterrupt)
                   \<and> (\<forall>l\<in>set (answers show_prompt news). \<not> recognised l)
        | Inr b \<Rightarrow> (\<exists>l. recognised l \<and> b = affirmative l
                        \<and> filter recognised (answers show_prompt news) = [l]))"
    by blast
  have ans: "answers confirm_prompt news = []"
    using other prompts_distinct by metis
  obtain ps where ps: "display_collisions cs w1 = w1\<lparr>trace := trace w1 @ map Print ps\<rparr>"
    using display_collisions_trace by blast
  have r0: "\<forall>m. r0 \<noteq> Some (OSError m)"
    using assms False ask res by (cases res) auto
  have "w2 = w1 \<or> w2 = display_collisions cs w1"
    using assms False ask by (cases res) (auto split: if_splits)
  then show ?thesis
  proof
    assume "w2 = w1"
    then have "w2 = w\<lparr>stdin := rest, trace := trace w @ (map Print [warning] @ news)\<rparr>"
      using w1 by (simp add: print_def)
    moreover have "\<forall>yn. safe yn (map Print [warning] @ news)"
      using safe safe_Print safe_append by blast
    moreover have "removals (map Print [warning] @ news) = []"
      using rem by (simp add: removals_append removals_Print del: list.map)
    moreover have "set (prompts (map Print [warning] @ news)) \<subseteq> {show_prompt}"
      using pr by (simp add: prompts_append prompts_Print del: list.map)
    moreover have "answers confirm_prompt (map Print [warning] @ news) = []"
      using ans by (simp add: answers_append answers_Print del: list.map)
    moreover have "starts (Print warning) (map Print [warning] @ news)" by (simp add: starts_def)
    ultimately show ?thesis using r0 by blast
  next
    assume "w2 = display_collisions cs w1"
    then have "w2 = w\<lparr>stdin := rest, trace := trace w @ (map Print [warning] @ news @ map Print ps)\<rparr>"
      using w1 ps by (simp add: print_def)
    moreover have "\<forall>yn. safe yn (map Print [warning] @ news @ map Print ps)"
      using safe safe_Print safe_append by blast
    moreover have "removals (map Print [warning] @ news @ map Print ps) = []"
      using rem by (simp add: removals_append removals_Print del: list.map)
    moreover have "set (prompts (map Print [warning] @ news @ map Print ps)) \<subseteq> {show_prompt}"
      using pr by (simp add: prompts_append prompts_Print del: list.map)
    moreover have "answers confirm_prompt (map Print [warning] @ news @ map Print ps) = []"
      using ans by (simp add: answers_append answers_Print del: list.map)
    moreover have "starts (Print warning) (map Print [warning] @ news @ map Print ps)"
      by (simp add: starts_def)
    ultimately show ?thesis using r0 by blast
  qed
qed

lemma confirm_and_delete_result:
  assumes "confirm_and_delete warning show_collisions cs w = (r, w')"
  shows "\<exists>news rest.
      (\<forall>yn. safe yn news) \<and> removals news = []
    \<and> set (prompts news) \<subseteq> {show_prompt, confirm_prompt}
    \<and> (\<forall>m. r \<noteq> Some (OSError m))
    \<and> (starts (Print warning) news
        \<or> starts (Print ''Nothing to delete. No duplicate files found'') news)
    \<and> ((\<exists>l. r = None \<and> cs \<noteq> [] \<and> affirmative l
             \<and> filter recognised (answers confirm_prompt news) = [l]
             \<and> w' = delete_duplicates cs (w\<lparr>stdin := rest, trace := trace w @ news\<rparr>))
        \<or> (w' = w\<lparr>stdin := rest, trace := trace w @ news\<rparr>
            \<and> (cs = [] \<longrightarrow> r = None \<and> prompts news = [] \<and> rest = stdin w)
            \<and> (\<forall>l\<in>set (answers confirm_prompt news). recognised l \<longrightarrow> negative l \<and> r = None)))"
proof (cases "cs = []")
  case True
  let ?news = "map Print [''Nothing to delete. No duplicate files found'']"
  from True assms have r: "r = None" and w': "w' = w\<lparr>stdin := stdin w, trace := trace w @ ?news\<rparr>"
    by (auto simp: confirm_and_delete_def print_def)
  have "\<forall>yn. safe yn ?news" using safe_Print by blast
  moreover have "removals ?news = []" by (simp add: Print_single)
  moreover have "set (prompts ?news) \<subseteq> {show_prompt, confirm_prompt}" by (simp add: Print_single)
  moreover have "\<forall>m. r \<noteq> Some (OSError m)" using r by simp
  moreover have "starts (Print warning) ?news
        \<or> starts (Print ''Nothing to delete. No duplicate files found'') ?news"
    by (simp add: starts_def)
  moreover have "w' = w\<lparr>stdin := stdin w, trace := trace w @ ?news\<rparr>
            \<and> (cs = [] \<longrightarrow> r = None \<and> prompts ?news = [] \<and> stdin w = stdin w)
            \<and> (\<forall>l\<in>set (answers confirm_prompt ?news). recognised l \<longrightarrow> negative l \<and> r = None)"
    using r w' by (simp add: Print_single)
  ultimately show ?thesis by blast
next
  case False
  let ?first = "if \<not> show_collisions then
                 (case ask_yes_no show_prompt (print warning w) of
                    (Inl e, w1) \<Rightarrow> (Some e, w1)
                  | (Inr sh, w1) \<Rightarrow>
                      (None, if sh then display_collisions cs w1 else w1))
               else (None, print warning w)"
  obtain r0 w2 where first: "?first = (r0, w2)"
    by (cases ?first)
  from show_stage [OF first] obtain pre rest0 where
    w2: "w2 = w\<lparr>stdin := rest0, trace := trace w @ pre\<rparr>"
    and pre: "\<forall>yn. safe yn pre" "removals pre = []" "set (prompts pre) \<subseteq> {show_prompt}"
      "answers confirm_prompt pre = []" "\<forall>m. r0 \<noteq> Some (OSError m)"
      "starts (Print warning) pre"
    by blast
  show ?thesis
  proof (cases r0)
    case (Some e)
    with assms False first have "r = Some e" "w' = w2"
      by (auto simp: confirm_and_delete_def)
    with Some w2 pre False show ?thesis by auto
  next
    case None
    with assms False first have second: "(case ask_yes_no confirm_prompt w2 of
              (Inl e, w3) \<Rightarrow> (Some e, w3)
            | (Inr c, w3) \<Rightarrow>
                (None, if c then delete_duplicates cs w3 else print ''Aborted deletion.'' w3))
           = (r, w')"
      by (auto simp: confirm_and_delete_def)
    from confirm_stage [OF second] obtain news rest where
      news: "\<forall>yn. safe yn news" "removals news = []" "set (prompts news) \<subseteq> {confirm_prompt}"
        "\<forall>m. r \<noteq> Some (OSError m)"
      and alt: "(\<exists>l. r = None \<and> affirmative l \<and> filter recognised (answers confirm_prompt news) = [l]
             \<and> w' = delete_duplicates cs (w2\<lparr>stdin := rest, trace := trace w2 @ news\<rparr>))
        \<or> (w' = w2\<lparr>stdin := rest, trace := trace w2 @ news\<rparr>
            \<and> (\<forall>l\<in>set (answers confirm_prompt news). recognised l \<longrightarrow> negative l \<and> r = None))"
      by blast
    have upd: "w2\<lparr>stdin := rest, trace := trace w2 @ news\<rparr>
        = w\<lparr>stdin := rest, trace := trace w @ (pre @ news)\<rparr>"
      using w2 by simp
    have "\<forall>yn. safe yn (pre @ news)" using pre(1) news(1) safe_append by blast
    moreover have "removals (pre @ news) = []" using pre(2) news(2) by (simp add: removals_append)
    moreover have "set (prompts (pre @ news)) \<subseteq> {show_prompt, confirm_prompt}"
      using pre(3) news(3) by (auto simp: prompts_append)
    moreover have "answers confirm_prompt (pre @ news) = answers confirm_prompt news"
      using pre(4) by (simp add: answers_append)
    moreover have "starts (Print warning) (pre @ news)
        \<or> starts (Print ''Nothing to delete. No duplicate files found'') (pre @ news)"
      using pre(6) by (cases pre) (simp_all add: starts_def)
    ultimately show ?thesis using alt news(4) False unfolding upd by metis
  qed
qed

section \<open>The shape of a run\<close>

lemma input_result:
  "input p w = (res, w3) \<Longrightarrow>
   \<exists>k rest. w3 = w\<lparr>stdin := rest, trace := trace w @ [Input p k]\<rparr>
     \<and> (case k of
           None \<Rightarrow> res = Inl EOFError
         | Some CtrlC \<Rightarrow> res = Inl KeyboardInterrupt
         | Some (Line l) \<Rightarrow> res = Inr l)"
proof (cases "stdin w")
  case Nil
  assume "input p w = (res, w3)"
  with Nil have "w3 = w\<lparr>stdin := [], trace := trace w @ [Input p None]\<rparr>" "res = Inl EOFError"
    by (auto simp: input_def)
  then show ?thesis by (intro exI [of _ None] exI [of _ "[]"]) simp
next
  case (Cons k rest)
  assume a: "input p w = (res, w3)"
  show ?thesis
  proof (cases k)
    case (Line l)
    with Cons a have "w3 = w\<lparr>stdin := rest, trace := trace w @ [Input p (Some (Line l))]\<rparr>"
      "res = Inr l" by (auto simp: input_def)
    then show ?thesis by (intro exI [of _ "Some (Line l)"] exI [of _ rest]) simp
  next
    case CtrlC
    with Cons a have "w3 = w\<lparr>stdin := rest, trace := trace w @ [Input p (Some CtrlC)]\<rparr>"
      "res = Inl KeyboardInterrupt" by (auto simp: input_def)
    then show ?thesis by (intro exI [of _ "Some CtrlC"] exI [of _ rest]) simp
  qed
qed

lemma safe_Input:
  "\<not> yn p \<Longrightarrow> safe yn [Input p k]"
proof (cases k)
  case None
  then show ?thesis by (simp add: safe_def)
next
  case (Some x)
  assume "\<not> yn p"
  with Some show ?thesis by (cases x) (simp_all add: safe_def)
qed

lemma Input_single:
  "removals [Input p k] = [] \<and> prompts [Input p k] = [p]
   \<and> (q \<noteq> p \<longrightarrow> answers q [Input p k] = [])"
  by (simp add: removals_def prompts_def answers_Input split: option.splits keyboard.splits)

lemma trace_Cons:
  "removals (e # es) = removed e @ removals es \<and> prompts (e # es) = prompt_of e @ prompts es
   \<and> answers q (e # es) = answer_to q e @ answers q es"
  by (simp add: removals_def prompts_def answers_def)

lemma after_proceed_line:
  assumes cad: "confirm_and_delete warning show_collisions cs
                  (w2\<lparr>stdin := rest0, trace := trace w2 @ [Input p (Some (Line l0))]\<rparr>) = (r, w')"
    and p: "p \<noteq> confirm_prompt"
    and wm: "warning = warning_message \<or> warning = warning_message_v2"
  shows "after_proceed p cs w2 r w'"
proof -
  let ?w3 = "w2\<lparr>stdin := rest0, trace := trace w2 @ [Input p (Some (Line l0))]\<rparr>"
  let ?one = "[Input p (Some (Line l0))]"
  from confirm_and_delete_result [OF cad] obtain news rest where
    safe: "\<forall>yn. safe yn news" and rem: "removals news = []"
    and pr: "set (prompts news) \<subseteq> {show_prompt, confirm_prompt}"
    and r: "\<forall>m. r \<noteq> Some (OSError m)"
    and go: "starts (Print warning) news
        \<or> starts (Print ''Nothing to delete. No duplicate files found'') news"
    and alt: "(\<exists>l. r = None \<and> cs \<noteq> [] \<and> affirmative l
             \<and> filter recognised (answers confirm_prompt news) = [l]
             \<and> w' = delete_duplicates cs (?w3\<lparr>stdin := rest, trace := trace ?w3 @ news\<rparr>))
        \<or> (w' = ?w3\<lparr>stdin := rest, trace := trace ?w3 @ news\<rparr>
            \<and> (cs = [] \<longrightarrow> r = None \<and> prompts news = [] \<and> rest = stdin ?w3)
            \<and> (\<forall>l\<in>set (answers confirm_prompt news). recognised l \<longrightarrow> negative l \<and> r = None))"
    by blast
  have upd: "?w3\<lparr>stdin := rest, trace := trace ?w3 @ news\<rparr>
      = w2\<lparr>stdin := rest, trace := trace w2 @ (?one @ news)\<rparr>"
    by simp
  have s: "\<forall>yn. \<not> yn p \<longrightarrow> safe yn (?one @ news)"
    using safe safe_Input safe_append by blast
  have rm: "removals (?one @ news) = []"
    using rem by (simp add: trace_Cons)
  have an: "answers confirm_prompt (?one @ news) = answers confirm_prompt news"
    using p by (simp add: trace_Cons)
  have empty: "cs = [] \<longrightarrow> prompts news = []"
    using alt by auto
  have more: "\<exists>more. prompts (?one @ news) = p # more \<and> set more \<subseteq> {show_prompt, confirm_prompt}
                  \<and> (cs = [] \<longrightarrow> more = [])"
    using pr empty by (simp add: trace_Cons)
  from alt have "(\<exists>l. r = None \<and> cs \<noteq> [] \<and> affirmative l
               \<and> filter recognised (answers confirm_prompt (?one @ news)) = [l]
               \<and> w' = delete_duplicates cs (w2\<lparr>stdin := rest, trace := trace w2 @ (?one @ news)\<rparr>))
          \<or> (w' = w2\<lparr>stdin := rest, trace := trace w2 @ (?one @ news)\<rparr>
              \<and> (\<forall>l\<in>set (answers confirm_prompt (?one @ news)).
                     recognised l \<longrightarrow> negative l \<and> r = None))"
    unfolding an upd by blast
  moreover have "\<exists>k. starts (Input p k) (?one @ news)
      \<and> (\<forall>l. k = Some (Line l) \<longrightarrow> next_step (tl (?one @ news)))"
    using go wm by (auto simp: next_step_def starts_def)
  ultimately show ?thesis using s rm r more
    unfolding after_proceed_def by blast
qed

lemma after_proceed_stop:
  assumes "w' = w2\<lparr>stdin := rest, trace := trace w2 @ [Input p k] @ map Print ps\<rparr>"
    and "\<forall>m. r \<noteq> Some (OSError m)" and "p \<noteq> confirm_prompt"
    and "\<forall>l. k \<noteq> Some (Line l)"
  shows "after_proceed p cs w2 r w'"
proof -
  let ?news = "[Input p k] @ map Print ps"
  have s: "\<forall>yn. \<not> yn p \<longrightarrow> safe yn ?news"
    using safe_Input safe_Print safe_append by blast
  have rm: "removals ?news = []"
    by (simp add: trace_Cons removals_Print)
  have an: "answers confirm_prompt ?news = []"
    using assms(3) Input_single [of p k confirm_prompt]
    unfolding answers_append by (simp add: answers_Print)
  have more: "\<exists>more. prompts ?news = p # more \<and> set more \<subseteq> {show_prompt, confirm_prompt}
                  \<and> (cs = [] \<longrightarrow> more = [])"
    by (simp add: trace_Cons prompts_Print)
  have "w' = w2\<lparr>stdin := rest, trace := trace w2 @ ?news\<rparr>
              \<and> (\<forall>l\<in>set (answers confirm_prompt ?news).
                     recognised l \<longrightarrow> negative l \<and> r = None)"
    using assms(1) an by simp
  moreover have "\<exists>k'. starts (Input p k') ?news
      \<and> (\<forall>l. k' = Some (Line l) \<longrightarrow> next_step (tl ?news))"
    using assms(4) by (simp add: starts_def)
  ultimately show ?thesis using s rm more assms(2)
    unfolding after_proceed_def by blast
qed

lemma read_blocks_error:
  "read_blocks chunk_size fault i rest f_hash = Inl e \<Longrightarrow> e = io_error"
proof (induction chunk_size fault i rest f_hash rule: read_blocks.induct)
  case (1 chunk_size fault i rest f_hash)
  from "1.prems" show ?case
    by (subst (asm) read_blocks.simps) (auto split: if_splits dest: "1.IH")
qed

lemma hash_file_error: "hash_file md5 fs p chunk_size = Inl e \<Longrightarrow> \<exists>m. e = OSError m"
  by (auto simp: hash_file_def os_error_def io_error_def
      split: option.splits if_splits sum.splits node.splits dest: read_blocks_error)

lemma hash_paths_frame:
  "hash_paths md5 ps w = (rh, w1) \<Longrightarrow>
   disk w1 = disk w \<and> stdin w1 = stdin w \<and> trace w1 = trace w
   \<and> (\<forall>e. rh = Some e \<longrightarrow> (\<exists>m. e = OSError m))"
proof (induction ps arbitrary: w)
  case Nil
  then show ?case by simp
next
  case (Cons p ps)
  show ?case
  proof (cases "hash_file md5 (disk w) p 8192")
    case (Inl e)
    with Cons.prems hash_file_error [OF Inl] show ?thesis by auto
  next
    case (Inr h)
    with Cons.prems have "hash_paths md5 ps (record_hash p h w) = (rh, w1)" by simp
    from Cons.IH [OF this] show ?thesis by (simp add: record_hash_frame)
  qed
qed

lemma process_file_total: "\<exists>h. process_file md5 fs p chunk_size = Inr (p, h)"
proof (cases "hash_file md5 fs p chunk_size")
  case (Inl e)
  with hash_file_error [OF Inl] show ?thesis by (auto simp: process_file_def)
next
  case (Inr h)
  then show ?thesis by (simp add: process_file_def)
qed

lemma hash_paths_parallel_frame:
  "hash_paths_parallel md5 ps w = (rh, w1) \<Longrightarrow>
   rh = None \<and> disk w1 = disk w \<and> stdin w1 = stdin w \<and> trace w1 = trace w"
proof -
  have "collect_results (map (\<lambda>p. process_file md5 fs p 8192) ps) w = (rh, w1) \<Longrightarrow>
        rh = None \<and> disk w1 = disk w \<and> stdin w1 = stdin w \<and> trace w1 = trace w" for fs
  proof (induction ps arbitrary: w)
    case Nil
    then show ?case by simp
  next
    case (Cons p ps)
    obtain h where h: "process_file md5 fs p 8192 = Inr (p, h)"
      using process_file_total by blast
    let ?w = "case h of None \<Rightarrow> w | Some x \<Rightarrow> if x \<noteq> [] then record_hash p x w else w"
    from Cons.prems h have "collect_results (map (\<lambda>p. process_file md5 fs p 8192) ps) ?w = (rh, w1)"
      by simp
    from Cons.IH [OF this] show ?case
      by (auto simp: record_hash_frame split: option.splits if_splits)
  qed
  then show "hash_paths_parallel md5 ps w = (rh, w1) \<Longrightarrow>
   rh = None \<and> disk w1 = disk w \<and> stdin w1 = stdin w \<and> trace w1 = trace w"
    by (simp add: hash_paths_parallel_def)
qed

lemma report_trace:
  "\<exists>ps. (if show_collisions then display_collisions cs w else print s w)
         = w\<lparr>trace := trace w @ map Print ps\<rparr>"
proof (cases show_collisions)
  case True
  then show ?thesis using display_collisions_trace [of cs w] by simp
next
  case False
  have "print s w = w\<lparr>trace := trace w @ map Print [s]\<rparr>" by (rule print_trace)
  with False show ?thesis by (intro exI [of _ "[s]"]) simp
qed

lemma clean_up_result:
  assumes "clean_up md5 dir show_collisions delete w = (r, w')"
  shows "\<exists>rh w1. hash_paths md5 (get_file_paths (disk w) dir) w = (rh, w1) \<and>
     ((\<exists>m. rh = Some (OSError m) \<and> r = rh \<and> w' = w1)
      \<or> (rh = None \<and>
          (\<exists>ps. (\<not> delete \<and> r = None \<and> w' = w1\<lparr>trace := trace w1 @ map Print ps\<rparr>)
              \<or> (delete \<and> after_proceed proceed_prompt (collisions_of w1)
                              (w1\<lparr>trace := trace w1 @ map Print ps\<rparr>) r w'))))"
proof -
  obtain rh w1 where hp: "hash_paths md5 (get_file_paths (disk w) dir) w = (rh, w1)"
    by (cases "hash_paths md5 (get_file_paths (disk w) dir) w")
  show ?thesis
  proof (cases rh)
    case (Some e)
    with hash_paths_frame [OF hp] obtain m where "e = OSError m" by auto
    moreover from Some hp assms have "r = rh" "w' = w1" by (auto simp: clean_up_def)
    ultimately show ?thesis using hp Some by blast
  next
    case None
    let ?cs = "collisions_of w1"
    let ?rep = "if show_collisions then display_collisions ?cs w1
                    else print (''Duplicates were found for '' @ show_nat (length ?cs)
                                 @ '' individual files\<newline>'') w1"
    obtain ps where ps: "?rep = w1\<lparr>trace := trace w1 @ map Print ps\<rparr>"
      using report_trace by blast
    let ?w2 = "w1\<lparr>trace := trace w1 @ map Print ps\<rparr>"
    show ?thesis
    proof (cases delete)
      case False
      with None hp assms have "r = None" "w' = ?rep"
        by (auto simp: clean_up_def Let_def)
      with ps False None hp show ?thesis by auto
    next
      case True
      obtain res w3 where inp: "input proceed_prompt ?w2 = (res, w3)"
        by (cases "input proceed_prompt ?w2")
      from input_result [OF inp] obtain k rest where
        w3: "w3 = ?w2\<lparr>stdin := rest, trace := trace ?w2 @ [Input proceed_prompt k]\<rparr>"
        and k: "(case k of
           None \<Rightarrow> res = Inl EOFError
         | Some CtrlC \<Rightarrow> res = Inl KeyboardInterrupt
         | Some (Line l) \<Rightarrow> res = Inr l)"
        by blast
      from True None hp assms ps inp have body:
        "(case res of Inl e \<Rightarrow> (Some e, w3)
          | Inr l \<Rightarrow> confirm_and_delete warning_message show_collisions ?cs w3) = (r, w')"
        by (auto simp: clean_up_def Let_def split: sum.splits)
      have pc: "proceed_prompt \<noteq> confirm_prompt" using prompts_distinct by simp
      have "after_proceed proceed_prompt ?cs ?w2 r w'"
      proof (cases res)
        case (Inr l)
        with k have "k = Some (Line l)" by (auto split: option.splits keyboard.splits)
        with Inr body w3 have "confirm_and_delete warning_message show_collisions ?cs
            (?w2\<lparr>stdin := rest, trace := trace ?w2 @ [Input proceed_prompt (Some (Line l))]\<rparr>) = (r, w')"
          by simp
        from after_proceed_line [OF this pc] show ?thesis by simp
      next
        case (Inl e)
        with k have e: "e = EOFError \<or> e = KeyboardInterrupt" and kn: "\<forall>l. k \<noteq> Some (Line l)"
          by (auto split: option.splits keyboard.splits)
        from Inl body have "r = Some e" "w' = w3" by auto
        with w3 have "w' = ?w2\<lparr>stdin := rest, trace := trace ?w2 @ [Input proceed_prompt k] @ map Print []\<rparr>"
          by simp
        moreover have "\<forall>m. r \<noteq> Some (OSError m)" using e \<open>r = Some e\<close> by auto
        ultimately show ?thesis using pc kn by (rule after_proceed_stop)
      qed
      with True None hp show ?thesis by blast
    qed
  qed
qed

lemma clean_up_v2_body_result:
  assumes "clean_up_v2_body md5 dir show_collisions delete w = (r, body)"
  shows "\<exists>ps0 w1 ps.
      hash_paths_parallel md5 (get_file_paths (disk w) dir) (w\<lparr>trace := trace w @ map Print ps0\<rparr>)
        = (None, w1)
    \<and> ((\<not> delete \<and> r = None \<and> body = w1\<lparr>trace := trace w1 @ map Print ps\<rparr>)
       \<or> (delete \<and> after_proceed proceed_prompt_v2 (collisions_of w1)
                      (w1\<lparr>trace := trace w1 @ map Print ps\<rparr>) r body))"
proof -
  let ?paths = "get_file_paths (disk w) dir"
  let ?ps0 = "[''Gathering file paths...'',
               ''Found '' @ show_nat (length ?paths) @ '' files. Hashing in parallel...'']"
  let ?w0 = "w\<lparr>trace := trace w @ map Print ?ps0\<rparr>"
  have w0: "print (''Found '' @ show_nat (length ?paths) @ '' files. Hashing in parallel...'')
                 (print ''Gathering file paths...'' w) = ?w0"
    by (simp add: print_def)
  obtain rh w1 where hp: "hash_paths_parallel md5 ?paths ?w0 = (rh, w1)"
    by (cases "hash_paths_parallel md5 ?paths ?w0")
  from hash_paths_parallel_frame [OF hp] have rh: "rh = None" by simp
  let ?cs = "collisions_of w1"
  let ?rep = "if show_collisions then display_collisions ?cs w1
                    else print (''Duplicates were found for '' @ show_nat (length ?cs)
                                 @ '' individual files\<newline>'') w1"
  obtain ps where ps: "?rep = w1\<lparr>trace := trace w1 @ map Print ps\<rparr>"
    using report_trace by blast
  let ?w2 = "w1\<lparr>trace := trace w1 @ map Print ps\<rparr>"
  have "(\<not> delete \<and> r = None \<and> body = ?w2)
       \<or> (delete \<and> after_proceed proceed_prompt_v2 ?cs ?w2 r body)"
  proof (cases delete)
    case False
    with hp rh assms w0 have "r = None" "body = ?rep"
      by (auto simp: clean_up_v2_body_def Let_def)
    with ps False show ?thesis by simp
  next
    case True
    obtain res w3 where inp: "input proceed_prompt_v2 ?w2 = (res, w3)"
      by (cases "input proceed_prompt_v2 ?w2")
    from input_result [OF inp] obtain k rest where
      w3: "w3 = ?w2\<lparr>stdin := rest, trace := trace ?w2 @ [Input proceed_prompt_v2 k]\<rparr>"
      and k: "(case k of
           None \<Rightarrow> res = Inl EOFError
         | Some CtrlC \<Rightarrow> res = Inl KeyboardInterrupt
         | Some (Line l) \<Rightarrow> res = Inr l)"
      by blast
    from True hp rh assms w0 ps inp have body:
      "(case res of
          Inl KeyboardInterrupt \<Rightarrow> (None, print ''\<newline>Operation cancelled.'' w3)
        | Inl e \<Rightarrow> (Some e, w3)
        | Inr l \<Rightarrow> confirm_and_delete warning_message_v2 show_collisions ?cs w3) = (r, body)"
      by (auto simp: clean_up_v2_body_def Let_def split: sum.splits py_exception.splits)
    have pc: "proceed_prompt_v2 \<noteq> confirm_prompt" using prompts_distinct by simp
    have "after_proceed proceed_prompt_v2 ?cs ?w2 r body"
    proof (cases res)
      case (Inr l)
      with k have "k = Some (Line l)" by (auto split: option.splits keyboard.splits)
      with Inr body w3 have "confirm_and_delete warning_message_v2 show_collisions ?cs
            (?w2\<lparr>stdin := rest, trace := trace ?w2 @ [Input proceed_prompt_v2 (Some (Line l))]\<rparr>)
            = (r, body)"
        by simp
      from after_proceed_line [OF this pc] show ?thesis by simp
    next
      case (Inl e)
      with k have e: "e = EOFError \<or> e = KeyboardInterrupt" and kn: "\<forall>l. k \<noteq> Some (Line l)"
        by (auto split: option.splits keyboard.splits)
      from e show ?thesis
      proof
        assume "e = EOFError"
        with Inl body have "r = Some EOFError" "body = w3" by auto
        with w3 have "body = ?w2\<lparr>stdin := rest,
            trace := trace ?w2 @ [Input proceed_prompt_v2 k] @ map Print []\<rparr>"
          by simp
        moreover have "\<forall>m. r \<noteq> Some (OSError m)" using \<open>r = Some EOFError\<close> by auto
        ultimately show ?thesis using pc kn by (rule after_proceed_stop)
      next
        assume "e = KeyboardInterrupt"
        with Inl body have "r = None" "body = print ''\<newline>Operation cancelled.'' w3" by auto
        with w3 have "body = ?w2\<lparr>stdin := rest,
            trace := trace ?w2 @ [Input proceed_prompt_v2 k]
                       @ map Print [''\<newline>Operation cancelled.'']\<rparr>"
          by (simp add: print_def)
        moreover have "\<forall>m. r \<noteq> Some (OSError m)" using \<open>r = None\<close> by auto
        ultimately show ?thesis using pc kn by (rule after_proceed_stop)
      qed
    qed
    with True show ?thesis by simp
  qed
  with hp rh show ?thesis by blast
qed

lemma clean_up_v2_result:
  assumes "clean_up_v2 md5 dir show_collisions delete w = (r, w')"
  shows "\<exists>body. clean_up_v2_body md5 dir show_collisions delete w = (r, body)
     \<and> w' = (if r = None then body\<lparr>trace := trace body @ [Timing ''clean_up'']\<rparr> else body)"
proof -
  obtain r0 body where b: "clean_up_v2_body md5 dir show_collisions delete w = (r0, body)"
    by (cases "clean_up_v2_body md5 dir show_collisions delete w")
  with assms show ?thesis by (cases r0) (auto simp: clean_up_v2_def)
qed

section \<open>Declining\<close>

lemma Input_in_answers:
  "Input p (Some (Line l)) \<in> set es \<Longrightarrow> l \<in> set (answers p es)"
proof (induction es)
  case Nil
  then show ?case by simp
next
  case (Cons e es)
  then show ?case by (auto simp: trace_Cons)
qed

lemma negative_recognised: "negative l \<Longrightarrow> recognised l"
  by (simp add: recognised_cases)

lemma fresh_fields:
  "disk (fresh fs keys) = fs \<and> stdin (fresh fs keys) = keys \<and> trace (fresh fs keys) = []
   \<and> hash_to_files (fresh fs keys) = [] \<and> file_to_hash (fresh fs keys) = []
   \<and> next_ref (fresh fs keys) = 0 \<and> store (fresh fs keys) = (\<lambda>r. [])"
  by (simp add: fresh_def)

lemma after_proceed_declined:
  assumes ap: "after_proceed p cs w2 r w'"
    and l: "l \<in> set (answers confirm_prompt (trace w'))" "negative l"
    and before: "answers confirm_prompt (trace w2) = []"
  shows "r = None \<and> disk w' = disk w2 \<and> removals (trace w') = removals (trace w2)"
proof -
  from ap obtain news rest where
    rem: "removals news = []"
    and alt: "(\<exists>l. r = None \<and> cs \<noteq> [] \<and> affirmative l
               \<and> filter recognised (answers confirm_prompt news) = [l]
               \<and> w' = delete_duplicates cs (w2\<lparr>stdin := rest, trace := trace w2 @ news\<rparr>))
          \<or> (w' = w2\<lparr>stdin := rest, trace := trace w2 @ news\<rparr>
              \<and> (\<forall>l\<in>set (answers confirm_prompt news).
                     recognised l \<longrightarrow> negative l \<and> r = None))"
    unfolding after_proceed_def by blast
  let ?wd = "w2\<lparr>stdin := rest, trace := trace w2 @ news\<rparr>"
  from alt show ?thesis
  proof
    assume "\<exists>l. r = None \<and> cs \<noteq> [] \<and> affirmative l
               \<and> filter recognised (answers confirm_prompt news) = [l]
               \<and> w' = delete_duplicates cs ?wd"
    then obtain y where y: "affirmative y" "filter recognised (answers confirm_prompt news) = [y]"
      and w': "w' = delete_duplicates cs ?wd" by blast
    obtain dnews where d: "trace (delete_duplicates cs ?wd) = trace ?wd @ dnews" "silent dnews"
      using delete_duplicates_trace by blast
    have "answers confirm_prompt (trace w') = answers confirm_prompt news"
      using w' d before by (simp add: answers_append silent_answers)
    with l have "l \<in> set (filter recognised (answers confirm_prompt news))"
      by (simp add: negative_recognised)
    with y have "l = y" by simp
    with y(1) l(2) affirmative_not_negative have False by blast
    then show ?thesis ..
  next
    assume a: "w' = ?wd \<and> (\<forall>l\<in>set (answers confirm_prompt news).
                     recognised l \<longrightarrow> negative l \<and> r = None)"
    then have "answers confirm_prompt (trace w') = answers confirm_prompt news"
      using before by (simp add: answers_append)
    with l a have "r = None" by (auto simp: negative_recognised)
    with a rem show ?thesis by (simp add: removals_append)
  qed
qed

lemma main_declined:
  assumes run: "main md5 fs keys dir show_collisions delete = (r, w')"
    and l: "Input confirm_prompt (Some (Line l)) \<in> set (trace w')" "negative l"
  shows "r = None \<and> disk w' = fs \<and> removals (trace w') = []"
proof -
  let ?w = "fresh fs keys"
  from run have "clean_up md5 dir show_collisions delete ?w = (r, w')" by (simp add: main_def)
  from clean_up_result [OF this] obtain rh w1 where
    hp: "hash_paths md5 (get_file_paths (disk ?w) dir) ?w = (rh, w1)"
    and alt: "(\<exists>m. rh = Some (OSError m) \<and> r = rh \<and> w' = w1)
      \<or> (rh = None \<and>
          (\<exists>ps. (\<not> delete \<and> r = None \<and> w' = w1\<lparr>trace := trace w1 @ map Print ps\<rparr>)
              \<or> (delete \<and> after_proceed proceed_prompt (collisions_of w1)
                              (w1\<lparr>trace := trace w1 @ map Print ps\<rparr>) r w')))"
    by blast
  from hash_paths_frame [OF hp] have w1: "disk w1 = fs" "trace w1 = []"
    by (simp_all add: fresh_fields)
  from l(1) have ans: "l \<in> set (answers confirm_prompt (trace w'))" by (rule Input_in_answers)
  from alt show ?thesis
  proof (elim disjE exE conjE)
    fix m assume "w' = w1"
    with w1 ans show ?thesis by (simp add: answers_def)
  next
    fix ps assume "w' = w1\<lparr>trace := trace w1 @ map Print ps\<rparr>"
    with w1 ans show ?thesis by (simp add: answers_Print)
  next
    fix ps assume ap: "after_proceed proceed_prompt (collisions_of w1)
                              (w1\<lparr>trace := trace w1 @ map Print ps\<rparr>) r w'"
    have "answers confirm_prompt (trace (w1\<lparr>trace := trace w1 @ map Print ps\<rparr>)) = []"
      using w1 by (simp add: answers_Print)
    from after_proceed_declined [OF ap ans l(2) this] w1 show ?thesis
      by (simp add: removals_Print)
  qed
qed

lemma main_v2_declined:
  assumes run: "main_v2 md5 fs keys dir show_collisions delete = (r, w')"
    and l: "Input confirm_prompt (Some (Line l)) \<in> set (trace w')" "negative l"
  shows "r = None \<and> disk w' = fs \<and> removals (trace w') = []"
proof -
  let ?w = "fresh fs keys"
  from run have "clean_up_v2 md5 dir show_collisions delete ?w = (r, w')" by (simp add: main_v2_def)
  from clean_up_v2_result [OF this] obtain body where
    b: "clean_up_v2_body md5 dir show_collisions delete ?w = (r, body)"
    and w': "w' = (if r = None then body\<lparr>trace := trace body @ [Timing ''clean_up'']\<rparr> else body)"
    by blast
  from clean_up_v2_body_result [OF b] obtain ps0 w1 ps where
    hp: "hash_paths_parallel md5 (get_file_paths (disk ?w) dir)
           (?w\<lparr>trace := trace ?w @ map Print ps0\<rparr>) = (None, w1)"
    and alt: "(\<not> delete \<and> r = None \<and> body = w1\<lparr>trace := trace w1 @ map Print ps\<rparr>)
       \<or> (delete \<and> after_proceed proceed_prompt_v2 (collisions_of w1)
                      (w1\<lparr>trace := trace w1 @ map Print ps\<rparr>) r body)"
    by blast
  from hash_paths_parallel_frame [OF hp] have w1: "disk w1 = fs" "trace w1 = map Print ps0"
    by (simp_all add: fresh_fields)
  have tr: "trace w' = trace body \<or> trace w' = trace body @ [Timing ''clean_up'']"
    using w' by (cases r) auto
  have dk: "disk w' = disk body" using w' by (cases r) auto
  from l(1) tr have "Input confirm_prompt (Some (Line l)) \<in> set (trace body)" by auto
  then have ans: "l \<in> set (answers confirm_prompt (trace body))" by (rule Input_in_answers)
  have rm: "removals (trace w') = removals (trace body)"
    using tr by (auto simp: removals_append) (simp add: removals_def)
  from alt show ?thesis
  proof (elim disjE conjE)
    assume "body = w1\<lparr>trace := trace w1 @ map Print ps\<rparr>"
    with w1 ans show ?thesis by (simp add: answers_append answers_Print del: map_append)
  next
    assume ap: "after_proceed proceed_prompt_v2 (collisions_of w1)
                      (w1\<lparr>trace := trace w1 @ map Print ps\<rparr>) r body"
    have "answers confirm_prompt (trace (w1\<lparr>trace := trace w1 @ map Print ps\<rparr>)) = []"
      using w1 by (simp add: answers_append answers_Print del: map_append)
    from after_proceed_declined [OF ap ans l(2) this] w1 dk rm show ?thesis
      by (simp add: removals_append removals_Print del: map_append)
  qed
qed

text \<open>
  C6. In a run of either program in which the question \<open>Do you know what you are
  doing\<close> was answered with a line read as no, the run ends without an exception, the
  disk is the one the run started with, and \<open>os.remove\<close> was never called.
\<close>

theorem declined_acknowledgement_deletes_nothing:
  assumes "main md5 fs keys dir show_collisions delete = (r, w')
           \<or> main_v2 md5 fs keys dir show_collisions delete = (r, w')"
    and "Input confirm_prompt (Some (Line l)) \<in> set (trace w')"
    and "negative l"
  shows "r = None \<and> disk w' = fs \<and> removals (trace w') = []"
  using assms main_declined main_v2_declined by blast

section \<open>Both programs at once\<close>

lemma collisions_of_cong:
  "hash_to_files a = hash_to_files b \<Longrightarrow> \<forall>g. mset (store a g) = mset (store b g)
   \<Longrightarrow> collisions_of a = collisions_of b"
proof -
  assume h: "hash_to_files a = hash_to_files b" and m: "\<forall>g. mset (store a g) = mset (store b g)"
  have "length (store a g) = length (store b g)" for g
    using m by (metis size_mset)
  with h show ?thesis by (simp add: collisions_of_def)
qed

lemma after_proceed_world:
  assumes "after_proceed p cs w2 r body"
  shows "\<exists>news dnews.
      trace body = trace w2 @ news @ dnews \<and> silent dnews
    \<and> (\<forall>yn. \<not> yn p \<longrightarrow> safe yn news) \<and> removals news = []
    \<and> (\<exists>more. prompts news = p # more \<and> set more \<subseteq> {show_prompt, confirm_prompt}
                \<and> (cs = [] \<longrightarrow> more = []))
    \<and> hash_to_files body = hash_to_files w2 \<and> file_to_hash body = file_to_hash w2
    \<and> next_ref body = next_ref w2 \<and> (\<forall>g. mset (store body g) = mset (store w2 g))
    \<and> (cs = [] \<longrightarrow> dnews = [] \<and> disk body = disk w2 \<and> store body = store w2)
    \<and> (\<forall>m. r \<noteq> Some (OSError m))
    \<and> (\<exists>k. starts (Input p k) news \<and> (\<forall>l. k = Some (Line l) \<longrightarrow> next_step (tl news)))"
proof -
  from assms obtain news rest where
    safe: "\<forall>yn. \<not> yn p \<longrightarrow> safe yn news" and rem: "removals news = []"
    and r: "\<forall>m. r \<noteq> Some (OSError m)"
    and on: "\<exists>k. starts (Input p k) news \<and> (\<forall>l. k = Some (Line l) \<longrightarrow> next_step (tl news))"
    and more: "\<exists>more. prompts news = p # more \<and> set more \<subseteq> {show_prompt, confirm_prompt}
                  \<and> (cs = [] \<longrightarrow> more = [])"
    and alt: "(\<exists>l. r = None \<and> cs \<noteq> [] \<and> affirmative l
               \<and> filter recognised (answers confirm_prompt news) = [l]
               \<and> body = delete_duplicates cs (w2\<lparr>stdin := rest, trace := trace w2 @ news\<rparr>))
          \<or> (body = w2\<lparr>stdin := rest, trace := trace w2 @ news\<rparr>
              \<and> (\<forall>l\<in>set (answers confirm_prompt news).
                     recognised l \<longrightarrow> negative l \<and> r = None))"
    unfolding after_proceed_def by blast
  let ?wd = "w2\<lparr>stdin := rest, trace := trace w2 @ news\<rparr>"
  from alt have "\<exists>dnews. trace body = trace w2 @ news @ dnews \<and> silent dnews
    \<and> hash_to_files body = hash_to_files w2 \<and> file_to_hash body = file_to_hash w2
    \<and> next_ref body = next_ref w2 \<and> (\<forall>g. mset (store body g) = mset (store w2 g))
    \<and> (cs = [] \<longrightarrow> dnews = [] \<and> disk body = disk w2 \<and> store body = store w2)"
  proof
    assume "\<exists>l. r = None \<and> cs \<noteq> [] \<and> affirmative l
               \<and> filter recognised (answers confirm_prompt news) = [l]
               \<and> body = delete_duplicates cs ?wd"
    then have b: "body = delete_duplicates cs ?wd" and cs: "cs \<noteq> []" by auto
    obtain dnews where d: "trace (delete_duplicates cs ?wd) = trace ?wd @ dnews" "silent dnews"
      using delete_duplicates_trace by blast
    have "trace body = trace w2 @ news @ dnews" using b d by simp
    moreover have "hash_to_files body = hash_to_files w2 \<and> file_to_hash body = file_to_hash w2
        \<and> next_ref body = next_ref w2"
      using b delete_duplicates_frame [of cs ?wd] by simp
    moreover have "\<forall>g. mset (store body g) = mset (store w2 g)"
      using b by (simp add: delete_duplicates_store)
    ultimately show ?thesis using d(2) cs by blast
  next
    assume "body = ?wd \<and> (\<forall>l\<in>set (answers confirm_prompt news).
                     recognised l \<longrightarrow> negative l \<and> r = None)"
    then have b: "body = ?wd" by simp
    have "trace body = trace w2 @ news @ [] \<and> silent []" using b by (simp add: silent_def)
    moreover have "hash_to_files body = hash_to_files w2 \<and> file_to_hash body = file_to_hash w2
        \<and> next_ref body = next_ref w2 \<and> (\<forall>g. mset (store body g) = mset (store w2 g))
        \<and> disk body = disk w2 \<and> store body = store w2"
      using b by simp
    ultimately show ?thesis by blast
  qed
  with safe rem r more on show ?thesis by blast
qed

lemma run_shape:
  assumes "main md5 fs keys dir show_collisions delete = (r, w') \<and> p = proceed_prompt
         \<or> main_v2 md5 fs keys dir show_collisions delete = (r, w') \<and> p = proceed_prompt_v2"
  shows "\<exists>pre w1 rh ps body post.
       (hash_paths md5 (get_file_paths fs dir) ((fresh fs keys)\<lparr>trace := map Print pre\<rparr>) = (rh, w1)
        \<or> hash_paths_parallel md5 (get_file_paths fs dir)
             ((fresh fs keys)\<lparr>trace := map Print pre\<rparr>) = (rh, w1))
     \<and> disk w1 = fs \<and> stdin w1 = keys \<and> trace w1 = map Print pre
     \<and> ((\<exists>m. rh = Some (OSError m) \<and> r = rh \<and> body = w1)
        \<or> (rh = None \<and> \<not> delete \<and> r = None \<and> body = w1\<lparr>trace := trace w1 @ map Print ps\<rparr>)
        \<or> (rh = None \<and> delete \<and> after_proceed p (collisions_of w1)
                                   (w1\<lparr>trace := trace w1 @ map Print ps\<rparr>) r body))
     \<and> w' = body\<lparr>trace := trace body @ post\<rparr> \<and> silent post \<and> removals post = []"
  using assms
proof (elim disjE conjE)
  let ?w = "fresh fs keys"
  assume run: "main md5 fs keys dir show_collisions delete = (r, w')" and p: "p = proceed_prompt"
  have fw: "?w\<lparr>trace := []\<rparr> = ?w" by (simp add: fresh_def)
  from run have "clean_up md5 dir show_collisions delete ?w = (r, w')" by (simp add: main_def)
  from clean_up_result [OF this] obtain rh w1 where
    hp: "hash_paths md5 (get_file_paths (disk ?w) dir) ?w = (rh, w1)"
    and alt: "(\<exists>m. rh = Some (OSError m) \<and> r = rh \<and> w' = w1)
      \<or> (rh = None \<and>
          (\<exists>ps. (\<not> delete \<and> r = None \<and> w' = w1\<lparr>trace := trace w1 @ map Print ps\<rparr>)
              \<or> (delete \<and> after_proceed proceed_prompt (collisions_of w1)
                              (w1\<lparr>trace := trace w1 @ map Print ps\<rparr>) r w')))"
    by blast
  from hash_paths_frame [OF hp] have w1: "disk w1 = fs" "stdin w1 = keys" "trace w1 = map Print []"
    by (simp_all add: fresh_fields)
  from hp have hp': "hash_paths md5 (get_file_paths fs dir) (?w\<lparr>trace := map Print []\<rparr>) = (rh, w1)"
    by (simp add: fw fresh_fields)
  from alt obtain ps where alt':
    "(\<exists>m. rh = Some (OSError m) \<and> r = rh \<and> w' = w1)
        \<or> (rh = None \<and> \<not> delete \<and> r = None \<and> w' = w1\<lparr>trace := trace w1 @ map Print ps\<rparr>)
        \<or> (rh = None \<and> delete \<and> after_proceed p (collisions_of w1)
                                   (w1\<lparr>trace := trace w1 @ map Print ps\<rparr>) r w')"
    unfolding p by blast
  have "w' = w'\<lparr>trace := trace w' @ []\<rparr> \<and> silent [] \<and> removals [] = []"
    by (simp add: silent_def removals_def)
  with hp' w1 alt' show ?thesis by blast
next
  let ?w = "fresh fs keys"
  assume run: "main_v2 md5 fs keys dir show_collisions delete = (r, w')"
    and p: "p = proceed_prompt_v2"
  from run have "clean_up_v2 md5 dir show_collisions delete ?w = (r, w')" by (simp add: main_v2_def)
  from clean_up_v2_result [OF this] obtain body where
    b: "clean_up_v2_body md5 dir show_collisions delete ?w = (r, body)"
    and w': "w' = (if r = None then body\<lparr>trace := trace body @ [Timing ''clean_up'']\<rparr> else body)"
    by blast
  from clean_up_v2_body_result [OF b] obtain ps0 w1 ps where
    hp: "hash_paths_parallel md5 (get_file_paths (disk ?w) dir)
           (?w\<lparr>trace := trace ?w @ map Print ps0\<rparr>) = (None, w1)"
    and alt: "(\<not> delete \<and> r = None \<and> body = w1\<lparr>trace := trace w1 @ map Print ps\<rparr>)
       \<or> (delete \<and> after_proceed proceed_prompt_v2 (collisions_of w1)
                      (w1\<lparr>trace := trace w1 @ map Print ps\<rparr>) r body)"
    by blast
  from hp have hp': "hash_paths_parallel md5 (get_file_paths fs dir)
           (?w\<lparr>trace := map Print ps0\<rparr>) = (None, w1)"
    by (simp add: fresh_fields)
  from hash_paths_parallel_frame [OF hp'] have w1:
    "disk w1 = fs" "stdin w1 = keys" "trace w1 = map Print ps0"
    by (simp_all add: fresh_fields)
  from alt have alt':
    "(\<exists>m. (None :: py_exception option) = Some (OSError m) \<and> r = None \<and> body = w1)
        \<or> ((None :: py_exception option) = None \<and> \<not> delete \<and> r = None
            \<and> body = w1\<lparr>trace := trace w1 @ map Print ps\<rparr>)
        \<or> ((None :: py_exception option) = None \<and> delete \<and> after_proceed p (collisions_of w1)
                                   (w1\<lparr>trace := trace w1 @ map Print ps\<rparr>) r body)"
    unfolding p by blast
  let ?post = "if r = None then [Timing ''clean_up''] else []"
  have "w' = body\<lparr>trace := trace body @ ?post\<rparr> \<and> silent ?post \<and> removals ?post = []"
    using w' by (simp add: silent_def removals_def)
  with hp' w1 alt' show ?thesis by blast
qed

section \<open>Runs without a directory, without groups, with hesitation\<close>

lemma get_file_paths_not_dir: "\<not> isdir fs dir \<Longrightarrow> get_file_paths fs dir = []"
  by (auto simp: isdir_def get_file_paths_def os_walk_def)

lemma hash_paths_parallel_Nil: "hash_paths_parallel md5 [] w = (None, w)"
  by (simp add: hash_paths_parallel_def)

lemma silent_removals_Print: "removals (map Print pre @ es) = removals es"
  by (simp add: removals_append removals_Print)

lemma show_nat_0: "show_nat 0 = ''0''"
  by (subst show_nat.simps) (simp add: digit_char_def)

lemma input_keeps:
  "input q w = (res, w3) \<Longrightarrow> e \<in> set (trace w) \<Longrightarrow> e \<in> set (trace w3) \<and> hash_to_files w3 = hash_to_files w"
  by (auto simp: input_def split: list.splits keyboard.splits)

lemma missing_root_report:
  assumes paths: "get_file_paths fs dir = []"
    and run: "main md5 fs keys dir show_collisions delete = (r, w')
           \<or> main_v2 md5 fs keys dir show_collisions delete = (r, w')"
  shows "Print (zero_report show_collisions) \<in> set (trace w')"
  using run
proof
  let ?w = "fresh fs keys"
  let ?w2 = "print (zero_report show_collisions) ?w"
  assume "main md5 fs keys dir show_collisions delete = (r, w')"
  with paths have body: "(if delete then
               (case input proceed_prompt ?w2 of
                  (Inl e, w3) \<Rightarrow> (Some e, w3)
                | (Inr l, w3) \<Rightarrow>
                    (None, print ''Nothing to delete. No duplicate files found'' w3))
             else (None, ?w2)) = (r, w')"
    by (auto simp: main_def clean_up_def fresh_fields fresh_def collisions_of_def Let_def
        display_collisions_def zero_report_def show_nat_0 confirm_and_delete_def
        split: if_splits cong: if_cong sum.case_cong py_exception.case_cong)
  have in2: "Print (zero_report show_collisions) \<in> set (trace ?w2)" by (simp add: print_def)
  show ?thesis
  proof (cases delete)
    case False
    with body in2 show ?thesis by auto
  next
    case True
    obtain res w3 where inp: "input proceed_prompt ?w2 = (res, w3)"
      by (cases "input proceed_prompt ?w2")
    from input_keeps [OF inp in2] have "Print (zero_report show_collisions) \<in> set (trace w3)" by simp
    with True body inp show ?thesis by (cases res) (auto simp: print_def)
  qed
next
  let ?w = "fresh fs keys"
  let ?start = "print ''Found 0 files. Hashing in parallel...'' (print ''Gathering file paths...'' ?w)"
  let ?w2 = "print (zero_report show_collisions) ?start"
  assume "main_v2 md5 fs keys dir show_collisions delete = (r, w')"
  then obtain body where b: "clean_up_v2_body md5 dir show_collisions delete ?w = (r, body)"
    and w': "w' = (if r = None then body\<lparr>trace := trace body @ [Timing ''clean_up'']\<rparr> else body)"
    using clean_up_v2_result [of md5 dir show_collisions delete ?w r w'] by (auto simp: main_v2_def)
  from b paths have body: "(if delete then
                  (case input proceed_prompt_v2 ?w2 of
                     (Inl KeyboardInterrupt, w3) \<Rightarrow>
                       (None, print ''\<newline>Operation cancelled.'' w3)
                   | (Inl e, w3) \<Rightarrow> (Some e, w3)
                   | (Inr l, w3) \<Rightarrow>
                       (None, print ''Nothing to delete. No duplicate files found'' w3))
                else (None, ?w2)) = (r, body)"
    by (auto simp: clean_up_v2_body_def fresh_fields fresh_def collisions_of_def Let_def
        hash_paths_parallel_Nil print_def
        display_collisions_def zero_report_def show_nat_0 confirm_and_delete_def
        split: if_splits cong: if_cong sum.case_cong py_exception.case_cong)
  have in2: "Print (zero_report show_collisions) \<in> set (trace ?w2)" by (simp add: print_def)
  have "Print (zero_report show_collisions) \<in> set (trace body)"
  proof (cases delete)
    case False
    with body in2 show ?thesis by auto
  next
    case True
    obtain res w3 where inp: "input proceed_prompt_v2 ?w2 = (res, w3)"
      by (cases "input proceed_prompt_v2 ?w2")
    from input_keeps [OF inp in2] have "Print (zero_report show_collisions) \<in> set (trace w3)" by simp
    with True body inp show ?thesis
      by (cases res) (auto simp: print_def split: py_exception.splits)
  qed
  with w' show ?thesis by simp
qed

text \<open>
  C3, amended. When the root argument is not a directory (it does not exist, or is
  something else), the enumeration returns no path and raises nothing: either program
  goes on as on an empty directory, reports that it found no duplicates, and ends with
  no \<open>OSError\<close>, nothing hashed, the disk untouched and no deletion attempted;
  without \<open>--delete\<close> it ends normally.
\<close>

theorem missing_root_scans_nothing:
  assumes nd: "\<not> isdir fs dir"
    and run: "main md5 fs keys dir show_collisions delete = (r, w')
           \<or> main_v2 md5 fs keys dir show_collisions delete = (r, w')"
  shows "get_file_paths fs dir = [] \<and> (\<forall>m. r \<noteq> Some (OSError m))
       \<and> (\<not> delete \<longrightarrow> r = None)
       \<and> hash_to_files w' = [] \<and> file_to_hash w' = []
       \<and> disk w' = fs \<and> removals (trace w') = []
       \<and> Print (if show_collisions then ''No hash collisions found.''
                 else ''Duplicates were found for 0 individual files\<newline>'')
           \<in> set (trace w')"
proof -
  have paths: "get_file_paths fs dir = []" using nd by (rule get_file_paths_not_dir)
  have report: "Print (if show_collisions then ''No hash collisions found.''
                 else ''Duplicates were found for 0 individual files\<newline>'')
           \<in> set (trace w')"
    using missing_root_report [OF paths run] by (simp add: zero_report_def)
  from run have "\<exists>p. main md5 fs keys dir show_collisions delete = (r, w') \<and> p = proceed_prompt
         \<or> main_v2 md5 fs keys dir show_collisions delete = (r, w') \<and> p = proceed_prompt_v2"
    by blast
  then obtain p where "main md5 fs keys dir show_collisions delete = (r, w') \<and> p = proceed_prompt
         \<or> main_v2 md5 fs keys dir show_collisions delete = (r, w') \<and> p = proceed_prompt_v2" ..
  from run_shape [OF this] obtain pre w1 rh ps body post where
    hp: "hash_paths md5 (get_file_paths fs dir) ((fresh fs keys)\<lparr>trace := map Print pre\<rparr>) = (rh, w1)
        \<or> hash_paths_parallel md5 (get_file_paths fs dir)
             ((fresh fs keys)\<lparr>trace := map Print pre\<rparr>) = (rh, w1)"
    and w1: "disk w1 = fs" "trace w1 = map Print pre"
    and alt: "(\<exists>m. rh = Some (OSError m) \<and> r = rh \<and> body = w1)
        \<or> (rh = None \<and> \<not> delete \<and> r = None \<and> body = w1\<lparr>trace := trace w1 @ map Print ps\<rparr>)
        \<or> (rh = None \<and> delete \<and> after_proceed p (collisions_of w1)
                                   (w1\<lparr>trace := trace w1 @ map Print ps\<rparr>) r body)"
    and w': "w' = body\<lparr>trace := trace body @ post\<rparr>" and post: "removals post = []"
    by blast
  from hp paths have rh: "rh = None" and w1eq: "w1 = (fresh fs keys)\<lparr>trace := map Print pre\<rparr>"
    by (auto simp: hash_paths_parallel_Nil)
  then have idx: "hash_to_files w1 = []" "file_to_hash w1 = []"
    by (simp_all add: fresh_fields)
  then have cs: "collisions_of w1 = []" by (simp add: collisions_of_def)
  from alt rh have "(\<not> delete \<and> r = None \<and> body = w1\<lparr>trace := trace w1 @ map Print ps\<rparr>)
        \<or> (delete \<and> after_proceed p (collisions_of w1)
                                   (w1\<lparr>trace := trace w1 @ map Print ps\<rparr>) r body)"
    by auto
  then have "(\<forall>m. r \<noteq> Some (OSError m)) \<and> (\<not> delete \<longrightarrow> r = None)
       \<and> hash_to_files body = [] \<and> file_to_hash body = []
       \<and> disk body = fs \<and> removals (trace body) = []"
  proof (elim disjE conjE)
    assume "\<not> delete" "r = None" "body = w1\<lparr>trace := trace w1 @ map Print ps\<rparr>"
    with w1 idx show ?thesis by (simp add: silent_removals_Print removals_Print)
  next
    assume d: "delete" and ap: "after_proceed p (collisions_of w1)
                                   (w1\<lparr>trace := trace w1 @ map Print ps\<rparr>) r body"
    from after_proceed_world [OF ap] cs obtain news where
      "trace body = trace (w1\<lparr>trace := trace w1 @ map Print ps\<rparr>) @ news"
      "removals news = []"
      "hash_to_files body = hash_to_files w1" "file_to_hash body = file_to_hash w1"
      "disk body = disk w1" "\<forall>m. r \<noteq> Some (OSError m)"
      by auto
    with w1 idx d show ?thesis by (simp add: removals_append removals_Print)
  qed
  with w' post paths report show ?thesis by (simp add: removals_append)
qed

text \<open>
  C4, amended. A run with \<open>--delete\<close> that ends with no duplicate group never calls
  \<open>os.remove\<close> and leaves the disk as it was; it issues exactly one prompt, the
  first one (\<open>Proceed to Delete?\<close>), and neither yes/no question. (A run of
  \<open>clean_up.py\<close> that an unreadable file has stopped issues none.)
\<close>

theorem no_groups_one_prompt:
  assumes run: "main md5 fs keys dir show_collisions True = (r, w') \<and> p = proceed_prompt
         \<or> main_v2 md5 fs keys dir show_collisions True = (r, w') \<and> p = proceed_prompt_v2"
    and none: "collisions_of w' = []"
  shows "removals (trace w') = [] \<and> disk w' = fs
       \<and> prompts (trace w') = (if (\<exists>m. r = Some (OSError m)) then [] else [p])"
proof -
  from run_shape [OF run] obtain pre w1 rh ps body post where
    w1: "disk w1 = fs" "trace w1 = map Print pre"
    and alt: "(\<exists>m. rh = Some (OSError m) \<and> r = rh \<and> body = w1)
        \<or> (rh = None \<and> \<not> True \<and> r = None \<and> body = w1\<lparr>trace := trace w1 @ map Print ps\<rparr>)
        \<or> (rh = None \<and> True \<and> after_proceed p (collisions_of w1)
                                   (w1\<lparr>trace := trace w1 @ map Print ps\<rparr>) r body)"
    and w': "w' = body\<lparr>trace := trace body @ post\<rparr>"
    and post: "silent post" "removals post = []"
    by blast
  from alt have "removals (trace body) = [] \<and> disk body = fs
       \<and> prompts (trace body) = (if (\<exists>m. r = Some (OSError m)) then [] else [p])"
  proof (elim disjE conjE exE)
    fix m assume "rh = Some (OSError m)" "r = rh" "body = w1"
    with w1 show ?thesis by (auto simp: removals_Print prompts_Print)
  next
    assume "\<not> True"
    then show ?thesis by simp
  next
    assume ap: "after_proceed p (collisions_of w1) (w1\<lparr>trace := trace w1 @ map Print ps\<rparr>) r body"
    let ?w2 = "w1\<lparr>trace := trace w1 @ map Print ps\<rparr>"
    from after_proceed_world [OF ap] obtain news dnews more where
      tr: "trace body = trace ?w2 @ news @ dnews"
      and rem: "removals news = []"
      and pr: "prompts news = p # more" "collisions_of w1 = [] \<longrightarrow> more = []"
      and same: "hash_to_files body = hash_to_files ?w2"
        "\<forall>g. mset (store body g) = mset (store ?w2 g)"
      and empty: "collisions_of w1 = [] \<longrightarrow> dnews = [] \<and> disk body = disk ?w2"
      and r: "\<forall>m. r \<noteq> Some (OSError m)"
      by blast
    have "collisions_of w' = collisions_of body" using w' by (simp add: collisions_of_def)
    also have "\<dots> = collisions_of ?w2" using same by (rule collisions_of_cong)
    also have "\<dots> = collisions_of w1" by (simp add: collisions_of_def)
    finally have cs: "collisions_of w1 = []" using none by simp
    with empty pr have "dnews = []" "disk body = fs" "prompts news = [p]" using w1 by auto
    with tr rem r w1 show ?thesis
      by (simp add: removals_append removals_Print prompts_append prompts_Print)
  qed
  with w' post show ?thesis by (simp add: removals_append prompts_append silent_prompts)
qed

lemma ask_yes_no_retry:
  assumes "\<not> recognised l"
  shows "ask_yes_no q (w\<lparr>stdin := Line l # rest\<rparr>)
       = ask_yes_no q (w\<lparr>stdin := rest,
                         trace := trace w @ [Input q (Some (Line l)), Print retry_hint]\<rparr>)"
proof -
  have "input q (w\<lparr>stdin := Line l # rest\<rparr>)
      = (Inr l, w\<lparr>stdin := rest, trace := trace w @ [Input q (Some (Line l))]\<rparr>)"
    by (simp add: input_def)
  with assms show ?thesis
    by (subst ask_yes_no.simps) (simp add: recognised_def print_def)
qed

lemma runs_reprompt:
  assumes "main md5 fs keys dir show_collisions delete = (r, w')
         \<or> main_v2 md5 fs keys dir show_collisions delete = (r, w')"
  shows "reprompts (\<lambda>q. q = show_prompt \<or> q = confirm_prompt) (trace w')"
proof -
  let ?yn = "\<lambda>q. q = show_prompt \<or> q = confirm_prompt"
  from assms have "\<exists>p. (main md5 fs keys dir show_collisions delete = (r, w') \<and> p = proceed_prompt
         \<or> main_v2 md5 fs keys dir show_collisions delete = (r, w') \<and> p = proceed_prompt_v2)
         \<and> (p = proceed_prompt \<or> p = proceed_prompt_v2)"
    by blast
  then obtain p where run: "main md5 fs keys dir show_collisions delete = (r, w') \<and> p = proceed_prompt
         \<or> main_v2 md5 fs keys dir show_collisions delete = (r, w') \<and> p = proceed_prompt_v2"
    and p: "p = proceed_prompt \<or> p = proceed_prompt_v2" by blast
  from p have nyn: "\<not> ?yn p" using prompts_distinct by auto
  from run_shape [OF run] obtain pre w1 rh ps body post where
    w1: "trace w1 = map Print pre"
    and alt: "(\<exists>m. rh = Some (OSError m) \<and> r = rh \<and> body = w1)
        \<or> (rh = None \<and> \<not> delete \<and> r = None \<and> body = w1\<lparr>trace := trace w1 @ map Print ps\<rparr>)
        \<or> (rh = None \<and> delete \<and> after_proceed p (collisions_of w1)
                                   (w1\<lparr>trace := trace w1 @ map Print ps\<rparr>) r body)"
    and w': "w' = body\<lparr>trace := trace body @ post\<rparr>"
    and post: "silent post"
    by blast
  have end_ok: "reprompts ?yn post"
    using silent_reprompts [OF post, of ?yn "[]"] by simp
  from alt have "reprompts ?yn (trace body @ post)"
  proof (elim disjE conjE exE)
    fix m assume "body = w1"
    with w1 have "trace body = map Print pre" by simp
    then show ?thesis using end_ok by (simp add: silent_reprompts silent_Print)
  next
    assume "body = w1\<lparr>trace := trace w1 @ map Print ps\<rparr>"
    with w1 have "trace body = map Print (pre @ ps)" by simp
    then show ?thesis using end_ok by (simp add: silent_reprompts silent_Print del: map_append)
  next
    assume ap: "after_proceed p (collisions_of w1) (w1\<lparr>trace := trace w1 @ map Print ps\<rparr>) r body"
    from after_proceed_world [OF ap] obtain news dnews where
      t: "trace body = trace (w1\<lparr>trace := trace w1 @ map Print ps\<rparr>) @ news @ dnews"
      and d: "silent dnews" and s: "\<forall>yn. \<not> yn p \<longrightarrow> safe yn news"
      by blast
    have sf: "safe ?yn news" using s [rule_format, of ?yn] nyn by simp
    from t w1 have tr: "trace body = map Print (pre @ ps) @ news @ dnews" by simp
    have "reprompts ?yn (dnews @ post)" using d end_ok by (simp add: silent_reprompts)
    with sf have "reprompts ?yn (news @ dnews @ post)" by (simp add: safe_def)
    then have "reprompts ?yn (map Print (pre @ ps) @ news @ dnews @ post)"
      by (simp add: silent_reprompts silent_Print del: map_append)
    with tr show ?thesis by simp
  qed
  with w' show ?thesis by simp
qed

lemma first_input_silent: "silent es \<Longrightarrow> first_input (es @ fs) = first_input fs"
proof (induction es)
  case Nil then show ?case by simp
next
  case (Cons e es)
  then show ?case by (cases e) (auto simp: silent_def)
qed

lemma first_input_starts:
  "starts (Input p k) news \<Longrightarrow> first_input (news @ rest) = Some (p, k, tl news @ rest)"
  by (cases news) (auto simp: starts_def)

lemma starts_append: "starts e es \<Longrightarrow> starts e (es @ fs)"
  by (cases es) (auto simp: starts_def)

lemma next_step_append: "next_step es \<Longrightarrow> next_step (es @ fs)"
  by (auto simp: next_step_def starts_append)

lemma prompts_tl: "starts (Input p k) news \<Longrightarrow> prompts news = p # prompts (tl news)"
  by (cases news) (auto simp: starts_def prompts_def)

lemma runs_advance:
  assumes "main md5 fs keys dir show_collisions delete = (r, w')
         \<or> main_v2 md5 fs keys dir show_collisions delete = (r, w')"
    and fi: "first_input (trace w') = Some (q, Some (Line l), es)"
  shows "(q = proceed_prompt \<or> q = proceed_prompt_v2) \<and> next_step es
       \<and> set (prompts es) \<subseteq> {show_prompt, confirm_prompt}"
proof -
  from assms(1) have "\<exists>p. (main md5 fs keys dir show_collisions delete = (r, w') \<and> p = proceed_prompt
         \<or> main_v2 md5 fs keys dir show_collisions delete = (r, w') \<and> p = proceed_prompt_v2)
         \<and> (p = proceed_prompt \<or> p = proceed_prompt_v2)"
    by blast
  then obtain p where run: "main md5 fs keys dir show_collisions delete = (r, w') \<and> p = proceed_prompt
         \<or> main_v2 md5 fs keys dir show_collisions delete = (r, w') \<and> p = proceed_prompt_v2"
    and p: "p = proceed_prompt \<or> p = proceed_prompt_v2" by blast
  from run_shape [OF run] obtain pre w1 rh ps body post where
    w1: "trace w1 = map Print pre"
    and alt: "(\<exists>m. rh = Some (OSError m) \<and> r = rh \<and> body = w1)
        \<or> (rh = None \<and> \<not> delete \<and> r = None \<and> body = w1\<lparr>trace := trace w1 @ map Print ps\<rparr>)
        \<or> (rh = None \<and> delete \<and> after_proceed p (collisions_of w1)
                                   (w1\<lparr>trace := trace w1 @ map Print ps\<rparr>) r body)"
    and w': "w' = body\<lparr>trace := trace body @ post\<rparr>"
    and post: "silent post"
    by blast
  have tw: "trace w' = trace body @ post" using w' by simp
  from alt show ?thesis
  proof (elim disjE conjE exE)
    fix m assume "body = w1"
    with w1 tw have "trace w' = (map Print pre @ post) @ []" by simp
    moreover have "silent (map Print pre @ post)" using post by (simp add: silent_append silent_Print)
    ultimately have "first_input (trace w') = None"
      using first_input_silent [of "map Print pre @ post" "[]"] by simp
    with fi show ?thesis by simp
  next
    assume "body = w1\<lparr>trace := trace w1 @ map Print ps\<rparr>"
    with w1 tw have "trace w' = (map Print (pre @ ps) @ post) @ []" by simp
    moreover have "silent (map Print (pre @ ps) @ post)"
      using post by (simp add: silent_append silent_Print del: map_append)
    ultimately have "first_input (trace w') = None"
      using first_input_silent [of "map Print (pre @ ps) @ post" "[]"] by simp
    with fi show ?thesis by simp
  next
    assume ap: "after_proceed p (collisions_of w1) (w1\<lparr>trace := trace w1 @ map Print ps\<rparr>) r body"
    from after_proceed_world [OF ap] obtain news dnews more k where
      t: "trace body = trace (w1\<lparr>trace := trace w1 @ map Print ps\<rparr>) @ news @ dnews"
      and d: "silent dnews"
      and more: "prompts news = p # more" "set more \<subseteq> {show_prompt, confirm_prompt}"
      and st: "starts (Input p k) news"
      and nx: "\<forall>l. k = Some (Line l) \<longrightarrow> next_step (tl news)"
      by blast
    from t w1 tw have tr: "trace w' = map Print (pre @ ps) @ (news @ (dnews @ post))" by simp
    have "first_input (trace w') = first_input (news @ (dnews @ post))"
      unfolding tr by (rule first_input_silent) (rule silent_Print)
    also have "\<dots> = Some (p, k, tl news @ (dnews @ post))"
      using st by (rule first_input_starts)
    finally have q: "q = p" and k: "k = Some (Line l)" and es: "es = tl news @ (dnews @ post)"
      using fi by simp_all
    have "next_step es" using nx k es by (simp add: next_step_append)
    moreover have "prompts es = more"
      using prompts_tl [OF st] more(1) d post es
      by (simp add: prompts_append silent_prompts)
    ultimately show ?thesis using q p more(2) by simp
  qed
qed

text \<open>
  C5, amended. The two yes/no questions (whether to list the files, and the final
  acknowledgement) accept only \<open>yes\<close>, \<open>y\<close>, \<open>no\<close>, \<open>n\<close>, read after
  \<open>strip().lower()\<close>: in every run of either program a line that is none of these is
  followed by the same question again, and the loop goes on in the state it was in,
  but for the consumed line and the two lines added to the trace. The first prompt,
  \<open>Proceed to Delete?\<close>, takes any line: whatever line was typed there, the very next
  thing the program does is print the warning (or, without groups, that there is nothing
  to delete), and the only prompts that follow are the two yes/no questions.
  Lines are strings of code points below 256.
\<close>

theorem yes_no_questions_are_repeated:
  assumes "main md5 fs keys dir show_collisions delete = (r, w')
         \<or> main_v2 md5 fs keys dir show_collisions delete = (r, w')"
  shows "reprompts (\<lambda>q. q = show_prompt \<or> q = confirm_prompt) (trace w')
       \<and> (\<forall>q w l rest. \<not> recognised l \<longrightarrow>
             ask_yes_no q (w\<lparr>stdin := Line l # rest\<rparr>)
             = ask_yes_no q (w\<lparr>stdin := rest,
                               trace := trace w @ [Input q (Some (Line l)), Print retry_hint]\<rparr>))
       \<and> (\<forall>q l es. first_input (trace w') = Some (q, Some (Line l), es) \<longrightarrow>
             (q = proceed_prompt \<or> q = proceed_prompt_v2) \<and> next_step es
             \<and> set (prompts es) \<subseteq> {show_prompt, confirm_prompt})"
  using runs_reprompt [OF assms] ask_yes_no_retry runs_advance [OF assms] by blast

lemma undecided_run:
  "fst (main length_digest two_copies undecided_keys ''/'' False True) = None
   \<and> trace (snd (main length_digest two_copies undecided_keys ''/'' False True))
     = [Print ''Duplicates were found for 1 individual files\<newline>'',
        Input proceed_prompt (Some (Line ''maybe'')),
        Print warning_message,
        Input show_prompt (Some (Line ''what'')),
        Print retry_hint,
        Input show_prompt (Some (Line ''n'')),
        Input confirm_prompt (Some (Line ''no'')),
        Print ''Aborted deletion.'']"
  by code_simp

lemma tokens: "\<not> recognised ''maybe'' \<and> \<not> recognised ''what'' \<and> recognised ''n''
   \<and> recognised ''no'' \<and> negative ''no''"
  by code_simp

text \<open>
  C5, as stated, fails at the first prompt: the line \<open>maybe\<close> is none of the four
  tokens, and the next prompt is a different one.
\<close>

theorem first_prompt_takes_any_line:
  "\<not> reprompts (\<lambda>q. True)
       (trace (snd (main length_digest two_copies undecided_keys ''/'' False True)))"
  using prompts_distinct by (auto simp: undecided_run tokens)

theorem yes_no_questions_are_repeated_witness:
  "reprompts (\<lambda>q. q = show_prompt \<or> q = confirm_prompt)
     (trace (snd (main length_digest two_copies undecided_keys ''/'' False True)))
   \<and> Input show_prompt (Some (Line ''what''))
       \<in> set (trace (snd (main length_digest two_copies undecided_keys ''/'' False True)))
   \<and> \<not> recognised ''what''
   \<and> first_input (trace (snd (main length_digest two_copies undecided_keys ''/'' False True)))
       = Some (proceed_prompt, Some (Line ''maybe''),
               drop 2 (trace (snd (main length_digest two_copies undecided_keys ''/'' False True))))
   \<and> next_step
       (drop 2 (trace (snd (main length_digest two_copies undecided_keys ''/'' False True))))
   \<and> set (prompts
       (drop 2 (trace (snd (main length_digest two_copies undecided_keys ''/'' False True)))))
       \<subseteq> {show_prompt, confirm_prompt}"
proof -
  let ?t = "trace (snd (main length_digest two_copies undecided_keys ''/'' False True))"
  have run: "main length_digest two_copies undecided_keys ''/'' False True
      = (fst (main length_digest two_copies undecided_keys ''/'' False True),
         snd (main length_digest two_copies undecided_keys ''/'' False True))
    \<or> main_v2 length_digest two_copies undecided_keys ''/'' False True
      = (fst (main length_digest two_copies undecided_keys ''/'' False True),
         snd (main length_digest two_copies undecided_keys ''/'' False True))"
    by simp
  have fi: "first_input ?t = Some (proceed_prompt, Some (Line ''maybe''), drop 2 ?t)"
    by (simp add: undecided_run)
  have "reprompts (\<lambda>q. q = show_prompt \<or> q = confirm_prompt) ?t"
    and adv: "\<forall>q l es. first_input ?t = Some (q, Some (Line l), es) \<longrightarrow>
             (q = proceed_prompt \<or> q = proceed_prompt_v2) \<and> next_step es
             \<and> set (prompts es) \<subseteq> {show_prompt, confirm_prompt}"
    using yes_no_questions_are_repeated [OF run] by blast+
  moreover have "Input show_prompt (Some (Line ''what'')) \<in> set ?t" by (simp add: undecided_run)
  moreover have "\<not> recognised ''what''" by (simp add: tokens)
  moreover have "next_step (drop 2 ?t)
       \<and> set (prompts (drop 2 ?t)) \<subseteq> {show_prompt, confirm_prompt}"
    using adv fi by blast
  ultimately show ?thesis using fi by blast
qed

theorem declined_acknowledgement_deletes_nothing_witness:
  "Input confirm_prompt (Some (Line ''no''))
       \<in> set (trace (snd (main length_digest two_copies undecided_keys ''/'' False True)))
   \<and> negative ''no''
   \<and> fst (main length_digest two_copies undecided_keys ''/'' False True) = None
   \<and> disk (snd (main length_digest two_copies undecided_keys ''/'' False True)) = two_copies
   \<and> removals (trace (snd (main length_digest two_copies undecided_keys ''/'' False True))) = []"
proof -
  have run: "main length_digest two_copies undecided_keys ''/'' False True
      = (fst (main length_digest two_copies undecided_keys ''/'' False True),
         snd (main length_digest two_copies undecided_keys ''/'' False True))
    \<or> main_v2 length_digest two_copies undecided_keys ''/'' False True
      = (fst (main length_digest two_copies undecided_keys ''/'' False True),
         snd (main length_digest two_copies undecided_keys ''/'' False True))"
    by simp
  have h: "Input confirm_prompt (Some (Line ''no''))
       \<in> set (trace (snd (main length_digest two_copies undecided_keys ''/'' False True)))"
    by (simp add: undecided_run)
  have n: "negative ''no''" by (simp add: tokens)
  show ?thesis
    using declined_acknowledgement_deletes_nothing [OF run h n] h n by simp
qed

text \<open>
  C3, as stated, fails: on a root that does not exist both programs end normally,
  after reporting zero duplicates.
\<close>

theorem missing_root_is_not_reported:
  "\<not> isdir empty_root ''/nope''
   \<and> fst (main length_digest empty_root [] ''/nope'' False False) = None
   \<and> trace (snd (main length_digest empty_root [] ''/nope'' False False))
       = [Print ''Duplicates were found for 0 individual files\<newline>'']
   \<and> fst (main_v2 length_digest empty_root [] ''/nope'' False False) = None"
  by code_simp

theorem missing_root_scans_nothing_witness:
  "\<not> isdir empty_root ''/nope''
   \<and> get_file_paths empty_root ''/nope'' = []
   \<and> fst (main length_digest empty_root [] ''/nope'' False False) = None
   \<and> hash_to_files (snd (main length_digest empty_root [] ''/nope'' False False)) = []
   \<and> disk (snd (main length_digest empty_root [] ''/nope'' False False)) = empty_root
   \<and> removals (trace (snd (main length_digest empty_root [] ''/nope'' False False))) = []
   \<and> Print ''Duplicates were found for 0 individual files\<newline>''
       \<in> set (trace (snd (main length_digest empty_root [] ''/nope'' False False)))"
proof -
  have nd: "\<not> isdir empty_root ''/nope''" by code_simp
  have run: "main length_digest empty_root [] ''/nope'' False False
      = (fst (main length_digest empty_root [] ''/nope'' False False),
         snd (main length_digest empty_root [] ''/nope'' False False))
    \<or> main_v2 length_digest empty_root [] ''/nope'' False False
      = (fst (main length_digest empty_root [] ''/nope'' False False),
         snd (main length_digest empty_root [] ''/nope'' False False))"
    by simp
  show ?thesis using missing_root_scans_nothing [OF nd run] nd by simp
qed

text \<open>
  C4, as stated, fails: on an empty directory with \<open>--delete\<close> there is no group and
  no deletion, but the first prompt is issued.
\<close>

lemma empty_run:
  "get_file_paths empty_root ''/'' = []
   \<and> collisions_of (snd (main length_digest empty_root [Line []] ''/'' False True)) = []
   \<and> fst (main length_digest empty_root [Line []] ''/'' False True) = None
   \<and> trace (snd (main length_digest empty_root [Line []] ''/'' False True))
       = [Print ''Duplicates were found for 0 individual files\<newline>'',
          Input proceed_prompt (Some (Line [])),
          Print ''Nothing to delete. No duplicate files found'']"
  by code_simp

theorem empty_directory_is_prompted:
  "get_file_paths empty_root ''/'' = []
   \<and> collisions_of (snd (main length_digest empty_root [Line []] ''/'' False True)) = []
   \<and> prompts (trace (snd (main length_digest empty_root [Line []] ''/'' False True)))
       = [proceed_prompt]"
  by (simp add: empty_run prompts_def)

theorem no_groups_one_prompt_witness:
  "collisions_of (snd (main length_digest empty_root [Line []] ''/'' False True)) = []
   \<and> removals (trace (snd (main length_digest empty_root [Line []] ''/'' False True))) = []
   \<and> disk (snd (main length_digest empty_root [Line []] ''/'' False True)) = empty_root
   \<and> prompts (trace (snd (main length_digest empty_root [Line []] ''/'' False True)))
       = [proceed_prompt]"
proof -
  have run: "main length_digest empty_root [Line []] ''/'' False True
      = (fst (main length_digest empty_root [Line []] ''/'' False True),
         snd (main length_digest empty_root [Line []] ''/'' False True))
      \<and> proceed_prompt = proceed_prompt
    \<or> main_v2 length_digest empty_root [Line []] ''/'' False True
      = (fst (main length_digest empty_root [Line []] ''/'' False True),
         snd (main length_digest empty_root [Line []] ''/'' False True))
      \<and> proceed_prompt = proceed_prompt_v2"
    by simp
  have none: "collisions_of (snd (main length_digest empty_root [Line []] ''/'' False True)) = []"
    by (simp add: empty_run)
  show ?thesis using no_groups_one_prompt [OF run none] none by (simp add: empty_run)
qed

section \<open>The index of a run\<close>

lemma wf_index_fresh: "wf_index ((fresh fs keys)\<lparr>trace := t\<rparr>)"
  by (simp add: wf_index_def fresh_def)

lemma map_of_distinct_refs:
  assumes "distinct (map snd hf)" "map_of hf h = Some g" "map_of hf h' = Some g"
  shows "h = h'"
proof -
  from assms(2,3) have "(h, g) \<in> set hf" "(h', g) \<in> set hf" by (auto dest: map_of_SomeD)
  with assms(1) show ?thesis by (metis eq_key_imp_eq_value distinct_map inj_onD prod.collapse snd_conv fst_conv)
qed

lemma append_path_old:
  assumes wf: "wf_index w" and x: "(k, g) \<in> set (hash_to_files w)"
  shows "(k, g) \<in> set (hash_to_files (append_path h p w))
       \<and> store (append_path h p w) g = (if k = h then store w g @ [p] else store w g)"
proof (cases "map_of (hash_to_files w) h")
  case None
  from x wf have "g < next_ref w" by (auto simp: wf_index_def list_all_iff)
  moreover from None x have "k \<noteq> h" by (metis map_of_eq_None_iff fst_conv image_eqI)
  ultimately show ?thesis using None x by (simp add: append_path_def)
next
  case (Some r)
  from wf x have kg: "map_of (hash_to_files w) k = Some g"
    by (simp add: wf_index_def)
  have "r = g \<longleftrightarrow> k = h"
  proof
    assume "r = g"
    with Some kg wf show "k = h" using map_of_distinct_refs [of "hash_to_files w" k g h]
      by (simp add: wf_index_def)
  next
    assume "k = h" with Some kg show "r = g" by simp
  qed
  with Some x show ?thesis by (auto simp: append_path_def)
qed

lemma append_path_wf:
  assumes wf: "wf_index w"
  shows "wf_index (append_path h p w)"
proof (cases "map_of (hash_to_files w) h")
  case None
  then have "h \<notin> fst ` set (hash_to_files w)" by (simp add: map_of_eq_None_iff)
  moreover have "next_ref w \<notin> snd ` set (hash_to_files w)"
    using wf by (auto simp: wf_index_def list_all_iff)
  ultimately show ?thesis using wf None
    by (auto simp: wf_index_def append_path_def list_all_iff)
next
  case (Some r)
  with wf show ?thesis by (simp add: wf_index_def append_path_def)
qed

lemma record_hash_old:
  assumes "wf_index w" "(k, g) \<in> set (hash_to_files w)"
  shows "(k, g) \<in> set (hash_to_files (record_hash p h w))
       \<and> store (record_hash p h w) g = (if k = h then store w g @ [p] else store w g)"
proof -
  let ?w = "w\<lparr>file_to_hash := AList.update p h (file_to_hash w)\<rparr>"
  have "wf_index ?w" using assms(1) by (simp add: wf_index_def)
  moreover have "(k, g) \<in> set (hash_to_files ?w)" using assms(2) by simp
  ultimately show ?thesis using append_path_old [of ?w k g h p] by (simp add: record_hash_def)
qed

lemma record_hash_wf: "wf_index w \<Longrightarrow> wf_index (record_hash p h w)"
proof -
  assume "wf_index w"
  then have "wf_index (w\<lparr>file_to_hash := AList.update p h (file_to_hash w)\<rparr>)"
    by (simp add: wf_index_def)
  then show ?thesis unfolding record_hash_def by (rule append_path_wf)
qed

lemma group_of_old:
  assumes "wf_index w" "(k, g) \<in> set (hash_to_files w)"
  shows "group_of w k = store w g"
  using assms by (simp add: group_of_def wf_index_def)

lemma append_path_group:
  assumes wf: "wf_index w"
  shows "group_of (append_path h p w) k = (if k = h then group_of w h @ [p] else group_of w k)"
proof (cases "map_of (hash_to_files w) k")
  case None
  show ?thesis
  proof (cases "k = h")
    case True
    with None show ?thesis by (simp add: group_of_def append_path_def map_add_def)
  next
    case False
    with None show ?thesis
      by (simp add: group_of_def append_path_def map_add_def split: option.splits)
  qed
next
  case (Some g)
  then have in_hf: "(k, g) \<in> set (hash_to_files w)" by (rule map_of_SomeD)
  from append_path_old [OF wf in_hf, of h p] have
    a: "(k, g) \<in> set (hash_to_files (append_path h p w))"
    and b: "store (append_path h p w) g = (if k = h then store w g @ [p] else store w g)"
    by simp_all
  have "group_of (append_path h p w) k = store (append_path h p w) g"
    using append_path_wf [OF wf] a by (rule group_of_old)
  moreover have "group_of w k = store w g" using wf in_hf by (rule group_of_old)
  ultimately show ?thesis using b by auto
qed

lemma record_hash_group:
  assumes "wf_index w"
  shows "group_of (record_hash p h w) k = (if k = h then group_of w h @ [p] else group_of w k)"
proof -
  let ?w = "w\<lparr>file_to_hash := AList.update p h (file_to_hash w)\<rparr>"
  have wf: "wf_index ?w" using assms by (simp add: wf_index_def)
  have "group_of ?w x = group_of w x" for x by (simp add: group_of_def split: option.splits)
  then show ?thesis using append_path_group [OF wf, of h p k]
    by (simp add: record_hash_def)
qed

lemma hash_paths_groups:
  assumes "wf_index w" "hash_paths md5 ps w = (rh, w1)"
  shows "wf_index w1
       \<and> (\<exists>n\<le>length ps. (rh = None \<longrightarrow> n = length ps)
            \<and> (\<forall>k. group_of w1 k
                  = group_of w k @ filter (\<lambda>p. hash_file md5 (disk w) p 8192 = Inr k) (take n ps)))"
  using assms
proof (induction ps arbitrary: w)
  case Nil
  then show ?case by simp
next
  case (Cons p ps)
  show ?case
  proof (cases "hash_file md5 (disk w) p 8192")
    case (Inl e)
    with Cons.prems have "w1 = w" "rh = Some e" by auto
    with Cons.prems(1) show ?thesis by (intro conjI exI [of _ 0]) simp_all
  next
    case (Inr h)
    let ?w = "record_hash p h w"
    have d: "disk ?w = disk w" by (simp add: record_hash_frame)
    have wf: "wf_index ?w" using Cons.prems(1) by (rule record_hash_wf)
    from Cons.prems(2) Inr have "hash_paths md5 ps ?w = (rh, w1)" by simp
    from Cons.IH [OF wf this] obtain n where
      w1: "wf_index w1" and n: "n \<le> length ps" "rh = None \<longrightarrow> n = length ps"
      and g: "\<forall>k. group_of w1 k
                = group_of ?w k @ filter (\<lambda>p. hash_file md5 (disk ?w) p 8192 = Inr k) (take n ps)"
      by blast
    have "\<forall>k. group_of w1 k
        = group_of w k @ filter (\<lambda>q. hash_file md5 (disk w) q 8192 = Inr k) (take (Suc n) (p # ps))"
      using g d Inr by (simp add: record_hash_group [OF Cons.prems(1)])
    with w1 n show ?thesis by (intro conjI exI [of _ "Suc n"]) simp_all
  qed
qed

lemma hash_file_truthy: "hash_file md5 fs p chunk_size = Inr h \<Longrightarrow> h \<noteq> []"
  by (auto simp: hash_file_def hexdigest_truthy split: sum.splits node.splits if_splits)

lemma collect_results_groups:
  assumes "wf_index w" "collect_results (map (\<lambda>p. process_file md5 fs p 8192) ps) w = (rh, w1)"
  shows "wf_index w1
       \<and> (\<forall>k. group_of w1 k
              = group_of w k @ filter (\<lambda>p. hash_file md5 fs p 8192 = Inr k) ps)"
  using assms
proof (induction ps arbitrary: w)
  case Nil
  then show ?case by simp
next
  case (Cons p ps)
  show ?case
  proof (cases "hash_file md5 fs p 8192")
    case (Inl e)
    then obtain m where "e = OSError m" using hash_file_error by blast
    with Inl have pf: "process_file md5 fs p 8192 = Inr (p, None)" by (simp add: process_file_def)
    with Cons.prems(2) have "collect_results (map (\<lambda>p. process_file md5 fs p 8192) ps) w = (rh, w1)"
      by simp
    from Cons.IH [OF Cons.prems(1) this] Inl show ?thesis by simp
  next
    case (Inr h)
    let ?w = "record_hash p h w"
    have pf: "process_file md5 fs p 8192 = Inr (p, Some h)" using Inr by (simp add: process_file_def)
    have ne: "h \<noteq> []" using Inr by (rule hash_file_truthy)
    have wf: "wf_index ?w" using Cons.prems(1) by (rule record_hash_wf)
    from Cons.prems(2) pf ne
    have "collect_results (map (\<lambda>p. process_file md5 fs p 8192) ps) ?w = (rh, w1)" by simp
    from Cons.IH [OF wf this] have
      w1: "wf_index w1"
      and g: "\<forall>k. group_of w1 k = group_of ?w k @ filter (\<lambda>p. hash_file md5 fs p 8192 = Inr k) ps"
      by simp_all
    have "\<forall>k. group_of w1 k
        = group_of w k @ filter (\<lambda>q. hash_file md5 fs q 8192 = Inr k) (p # ps)"
      using g Inr by (simp add: record_hash_group [OF Cons.prems(1)])
    with w1 show ?thesis by simp
  qed
qed

lemma group_of_fresh: "group_of ((fresh fs keys)\<lparr>trace := t\<rparr>) k = []"
  by (simp add: group_of_def fresh_def)

lemma group_of_cong:
  assumes "hash_to_files a = hash_to_files b" "\<forall>g. mset (store a g) = mset (store b g)"
  shows "mset (group_of a k) = mset (group_of b k)"
  using assms by (simp add: group_of_def split: option.splits)

lemma collision_keys:
  assumes "wf_index w"
  shows "(k \<in> fst ` set (collisions_of w)) = (1 < length (group_of w k))"
proof
  assume "k \<in> fst ` set (collisions_of w)"
  then obtain g where "(k, g) \<in> set (hash_to_files w)" "1 < length (store w g)"
    by (auto simp: collisions_of_def)
  with group_of_old [OF assms this(1)] show "1 < length (group_of w k)" by simp
next
  assume l: "1 < length (group_of w k)"
  then obtain g where g: "map_of (hash_to_files w) k = Some g" "group_of w k = store w g"
    by (auto simp: group_of_def split: option.splits)
  from g(1) have "(k, g) \<in> set (hash_to_files w)" by (rule map_of_SomeD)
  with l g(2) have "(k, g) \<in> set (collisions_of w)" by (simp add: collisions_of_def)
  then show "k \<in> fst ` set (collisions_of w)" by force
qed

lemma run_index:
  assumes "main md5 fs keys dir show_collisions delete = (r, w')
         \<or> main_v2 md5 fs keys dir show_collisions delete = (r, w')"
  shows "\<exists>n\<le>length (get_file_paths fs dir).
           ((\<forall>m. r \<noteq> Some (OSError m)) \<longrightarrow> n = length (get_file_paths fs dir))
         \<and> wf_index w'
         \<and> (\<forall>k. mset (group_of w' k)
                = mset (filter (\<lambda>p. hash_file md5 fs p 8192 = Inr k)
                          (take n (get_file_paths fs dir))))"
proof -
  let ?paths = "get_file_paths fs dir"
  from assms have "\<exists>p. main md5 fs keys dir show_collisions delete = (r, w') \<and> p = proceed_prompt
         \<or> main_v2 md5 fs keys dir show_collisions delete = (r, w') \<and> p = proceed_prompt_v2"
    by blast
  then obtain p where "main md5 fs keys dir show_collisions delete = (r, w') \<and> p = proceed_prompt
         \<or> main_v2 md5 fs keys dir show_collisions delete = (r, w') \<and> p = proceed_prompt_v2" ..
  from run_shape [OF this] obtain pre w1 rh ps body post where
    hp: "hash_paths md5 ?paths ((fresh fs keys)\<lparr>trace := map Print pre\<rparr>) = (rh, w1)
        \<or> hash_paths_parallel md5 ?paths ((fresh fs keys)\<lparr>trace := map Print pre\<rparr>) = (rh, w1)"
    and alt: "(\<exists>m. rh = Some (OSError m) \<and> r = rh \<and> body = w1)
        \<or> (rh = None \<and> \<not> delete \<and> r = None \<and> body = w1\<lparr>trace := trace w1 @ map Print ps\<rparr>)
        \<or> (rh = None \<and> delete \<and> after_proceed p (collisions_of w1)
                                   (w1\<lparr>trace := trace w1 @ map Print ps\<rparr>) r body)"
    and w': "w' = body\<lparr>trace := trace body @ post\<rparr>"
    by blast
  let ?w = "(fresh fs keys)\<lparr>trace := map Print pre\<rparr>"
  have wf: "wf_index ?w" by (rule wf_index_fresh)
  have dw: "disk ?w = fs" by (simp add: fresh_def)
  from hp have "wf_index w1 \<and> (\<exists>n\<le>length ?paths. (rh = None \<longrightarrow> n = length ?paths)
            \<and> (\<forall>k. group_of w1 k
                  = filter (\<lambda>p. hash_file md5 fs p 8192 = Inr k) (take n ?paths)))"
  proof
    assume "hash_paths md5 ?paths ?w = (rh, w1)"
    from hash_paths_groups [OF wf this] show ?thesis by (simp add: group_of_fresh dw)
  next
    assume "hash_paths_parallel md5 ?paths ?w = (rh, w1)"
    then have "collect_results (map (\<lambda>p. process_file md5 fs p 8192) ?paths) ?w = (rh, w1)"
      by (simp add: hash_paths_parallel_def dw)
    from collect_results_groups [OF wf this] have "wf_index w1"
      "\<forall>k. group_of w1 k = filter (\<lambda>p. hash_file md5 fs p 8192 = Inr k) (take (length ?paths) ?paths)"
      by (simp_all add: group_of_fresh)
    then show ?thesis by blast
  qed
  then obtain n where w1: "wf_index w1" and n: "n \<le> length ?paths" "rh = None \<longrightarrow> n = length ?paths"
    and g: "\<forall>k. group_of w1 k = filter (\<lambda>p. hash_file md5 fs p 8192 = Inr k) (take n ?paths)"
    by blast
  from alt have same: "hash_to_files body = hash_to_files w1 \<and> next_ref body = next_ref w1
      \<and> (\<forall>g. mset (store body g) = mset (store w1 g))
      \<and> ((\<forall>m. r \<noteq> Some (OSError m)) \<longrightarrow> rh = None)"
  proof (elim disjE conjE exE)
    fix m assume "rh = Some (OSError m)" "r = rh" "body = w1"
    then show ?thesis by simp
  next
    assume "rh = None" "body = w1\<lparr>trace := trace w1 @ map Print ps\<rparr>"
    then show ?thesis by simp
  next
    assume rh: "rh = None"
      and ap: "after_proceed p (collisions_of w1) (w1\<lparr>trace := trace w1 @ map Print ps\<rparr>) r body"
    from after_proceed_world [OF ap] rh show ?thesis by auto
  qed
  have hf: "hash_to_files w' = hash_to_files w1" "next_ref w' = next_ref w1"
    and st: "\<forall>g. mset (store w' g) = mset (store w1 g)"
    using same w' by simp_all
  have "wf_index w'" using w1 hf by (simp add: wf_index_def)
  moreover have "\<forall>k. mset (group_of w' k)
                = mset (filter (\<lambda>p. hash_file md5 fs p 8192 = Inr k) (take n ?paths))"
    using group_of_cong [OF hf(1) st] g by simp
  moreover have "(\<forall>m. r \<noteq> Some (OSError m)) \<longrightarrow> n = length ?paths"
    using same n(2) by blast
  ultimately show ?thesis using n(1) by blast
qed

text \<open>
  C9. A run is one process: loading the module creates the two dictionaries empty,
  and \<open>clean_up\<close> is called once. So whatever disk a run finds, in particular the one
  an earlier run has left, the groups it ends with are made of the files it has
  enumerated and hashed itself, each under its own fingerprint, and of nothing else:
  all the enumerated files whose hash could be computed or, when \<open>clean_up.py\<close> is
  stopped by an unreadable file, those before it. The fingerprints reported as
  collisions are those that two or more of these files have.
\<close>

theorem run_groups_its_own_files:
  assumes "main md5 fs keys dir show_collisions delete = (r, w')
         \<or> main_v2 md5 fs keys dir show_collisions delete = (r, w')"
  shows "\<exists>n\<le>length (get_file_paths fs dir).
           ((\<forall>m. r \<noteq> Some (OSError m)) \<longrightarrow> n = length (get_file_paths fs dir))
         \<and> (\<forall>k. mset (group_of w' k)
                = mset (filter (\<lambda>p. hash_file md5 fs p 8192 = Inr k)
                          (take n (get_file_paths fs dir))))
         \<and> (\<forall>k. (k \<in> fst ` set (collisions_of w'))
                = (1 < length (filter (\<lambda>p. hash_file md5 fs p 8192 = Inr k)
                                 (take n (get_file_paths fs dir)))))"
proof -
  from run_index [OF assms] obtain n where
    n: "n \<le> length (get_file_paths fs dir)"
      "(\<forall>m. r \<noteq> Some (OSError m)) \<longrightarrow> n = length (get_file_paths fs dir)"
    and wf: "wf_index w'"
    and g: "\<forall>k. mset (group_of w' k)
                = mset (filter (\<lambda>p. hash_file md5 fs p 8192 = Inr k)
                          (take n (get_file_paths fs dir)))"
    by blast
  have "length (group_of w' k)
      = length (filter (\<lambda>p. hash_file md5 fs p 8192 = Inr k) (take n (get_file_paths fs dir)))"
    for k using g by (metis size_mset)
  then have "\<forall>k. (k \<in> fst ` set (collisions_of w'))
                = (1 < length (filter (\<lambda>p. hash_file md5 fs p 8192 = Inr k)
                                 (take n (get_file_paths fs dir))))"
    using collision_keys [OF wf] by simp
  with n g show ?thesis by blast
qed

lemma first_run:
  "fst (main length_digest two_copies eager_keys ''/'' False True) = None
   \<and> disk (snd (main length_digest two_copies eager_keys ''/'' False True)) = one_copy
   \<and> map fst (collisions_of (snd (main length_digest two_copies eager_keys ''/'' False True)))
       = [''00000000000000000000000000000001'']"
  by code_simp

lemma second_run:
  "fst (main length_digest one_copy [] ''/'' False False) = None
   \<and> get_file_paths one_copy ''/'' = [''/y'', ''/c/x'']
   \<and> group_of (snd (main length_digest one_copy [] ''/'' False False))
        ''00000000000000000000000000000001'' = [''/c/x'']
   \<and> collisions_of (snd (main length_digest one_copy [] ''/'' False False)) = []"
  by code_simp

theorem run_groups_its_own_files_witness:
  "disk (snd (main length_digest two_copies eager_keys ''/'' False True)) = one_copy
   \<and> map fst (collisions_of (snd (main length_digest two_copies eager_keys ''/'' False True)))
       = [''00000000000000000000000000000001'']
   \<and> fst (main length_digest one_copy [] ''/'' False False) = None
   \<and> mset (group_of (snd (main length_digest one_copy [] ''/'' False False))
              ''00000000000000000000000000000001'')
       = mset (filter (\<lambda>p. hash_file length_digest one_copy p 8192
                              = Inr ''00000000000000000000000000000001'')
                 (get_file_paths one_copy ''/''))
   \<and> group_of (snd (main length_digest one_copy [] ''/'' False False))
        ''00000000000000000000000000000001'' = [''/c/x'']
   \<and> ''00000000000000000000000000000001''
       \<notin> fst ` set (collisions_of (snd (main length_digest one_copy [] ''/'' False False)))"
proof -
  let ?run = "main length_digest one_copy [] ''/'' False False"
  let ?paths = "get_file_paths one_copy ''/''"
  have run: "?run = (fst ?run, snd ?run) \<or> main_v2 length_digest one_copy [] ''/'' False False
      = (fst ?run, snd ?run)"
    by simp
  have r: "\<forall>m. fst ?run \<noteq> Some (OSError m)" by (simp add: second_run)
  from run_groups_its_own_files [OF run] obtain n where
    "(\<forall>m. fst ?run \<noteq> Some (OSError m)) \<longrightarrow> n = length ?paths"
    and g: "\<forall>k. mset (group_of (snd ?run) k)
                = mset (filter (\<lambda>p. hash_file length_digest one_copy p 8192 = Inr k)
                          (take n ?paths))"
    by blast
  with r have "n = length ?paths" by simp
  with g have "mset (group_of (snd ?run) ''00000000000000000000000000000001'')
       = mset (filter (\<lambda>p. hash_file length_digest one_copy p 8192
                              = Inr ''00000000000000000000000000000001'') ?paths)"
    by simp
  then show ?thesis by (simp add: first_run second_run)
qed

end
